theory Spec2Isabelle
  imports Main "HOL-Library.Word"
begin

section \<open>The raw image exporter of src/import/export-raw.c\<close>

text \<open>
  The exporter copies a regular file to an output descriptor, one bounded step per
  notification of the event loop. Everything outside the file (system calls, the
  compressor, the rate limiter, the event loop) is not part of the sources: what such a
  call returns is an \<^emph>\<open>answer\<close> handed to the model, and every call that is made is
  recorded as an \<^emph>\<open>event\<close>, in program order. Integers of C that are only compared
  or passed on (\<open>int\<close> results, descriptors, \<open>ssize_t\<close> lengths) are integers; the
  counters, which are added to, are 64-bit words, and the percentage is a 32-bit word.
  The assertions that a pointer is not null have no counterpart.
\<close>

subsection \<open>Constants of the platform\<close>

text \<open>The size of the scratch buffer, which is also the most that one \<open>sendfile\<close> or
  \<open>read\<close> is asked to move.\<close>

definition COPY_BUFFER_SIZE :: nat where
  "COPY_BUFFER_SIZE = 16 * 1024"

text \<open>\<open>USEC_PER_MSEC\<close> of \<open>time-util.h\<close>.\<close>

definition USEC_PER_MSEC :: nat where
  "USEC_PER_MSEC = 1000"

text \<open>Linux error numbers used by the file.\<close>

definition EPERM :: int where "EPERM = 1"
definition EAGAIN :: int where "EAGAIN = 11"
definition EBUSY :: int where "EBUSY = 16"
definition ENOTTY :: int where "ENOTTY = 25"

text \<open>\<open>S_ISREG\<close> of \<open>sys/stat.h\<close>: the file type bits \<open>S_IFMT = 0170000\<close> equal
  \<open>S_IFREG = 0100000\<close>.\<close>

definition S_ISREG :: "32 word \<Rightarrow> bool" where
  "S_ISREG m = (and m 0xF000 = 0x8000)"

text \<open>Modelled from the spec: \<open>log_error_errno\<close> is a macro of \<open>log.h\<close>, which is not among
  the sources; it logs one line and evaluates to the negated error code (section 7:
  the completion callback receives the negated error code), whatever the sign of its
  argument.\<close>

definition log_error_errno :: "int \<Rightarrow> int" where
  "log_error_errno err = - \<bar>err\<bar>"

subsection \<open>Data\<close>

type_synonym byte = "8 word"

text \<open>The enumeration of \<open>import-compress.h\<close>; the zero value is \<open>IMPORT_COMPRESS_UNKNOWN\<close>.\<close>

datatype ImportCompressType =
    IMPORT_COMPRESS_UNKNOWN
  | IMPORT_COMPRESS_UNCOMPRESSED
  | IMPORT_COMPRESS_XZ
  | IMPORT_COMPRESS_GZIP
  | IMPORT_COMPRESS_BZIP2

text \<open>The configuration of a \<open>RateLimit\<close>, as \<open>RATELIMIT_INIT\<close> sets it: at most
  \<open>burst\<close> events per \<open>interval\<close> microseconds. Its counters are kept by
  \<open>ratelimit_test\<close>, which is not among the sources.\<close>

record RateLimit =
  interval :: nat
  burst :: nat

text \<open>
  \<open>struct RawExport\<close>. \<open>on_finished\<close> tells whether a callback is registered;
  \<open>buffer\<close> holds the \<open>buffer_size\<close> valid bytes of the C buffer (its capacity
  \<open>buffer_allocated\<close> plays no role); \<open>st_mode\<close> and \<open>st_size\<close> are the two fields of
  \<open>st\<close> the file reads, \<open>st_size\<close> as the 64 bits that the cast to \<open>uint64_t\<close> keeps;
  \<open>output_event_source\<close> tells whether an event source is registered. The event loop and
  the user data pointer are opaque to the file.
\<close>

record RawExport =
  on_finished :: bool
  path :: "string option"
  input_fd :: int
  output_fd :: int
  compress_type :: ImportCompressType
  output_event_source :: bool
  buffer :: "byte list"
  written_compressed :: "64 word"
  written_uncompressed :: "64 word"
  last_percent :: "32 word"
  progress_rate_limit :: RateLimit
  st_mode :: "32 word"
  st_size :: "64 word"
  eof :: bool
  tried_reflink :: bool
  tried_sendfile :: bool

text \<open>What can stop the process instead of letting a function return: a failed
  \<open>assert\<close>, a division by zero, or (in the model only) a read loop that has used up the
  answers it was given without coming to an end.\<close>

datatype abort = AssertionFailed | DivisionByZero | OutOfAnswers

text \<open>The calls the exporter makes, with what they returned.\<close>

datatype event =
    EvReflink int                   \<comment> \<open>\<open>btrfs_reflink(input_fd, output_fd)\<close> returned r\<close>
  | EvSendfile int int              \<comment> \<open>\<open>sendfile\<close> returned l, with errno\<close>
  | EvRead int int                  \<comment> \<open>\<open>read\<close> returned l, with errno\<close>
  | EvCompress int int              \<comment> \<open>\<open>import_compress\<close> of l bytes returned r\<close>
  | EvCompressFinish int            \<comment> \<open>\<open>import_compress_finish\<close> returned r\<close>
  | EvWrite "byte list" int int     \<comment> \<open>\<open>write\<close> of these bytes returned l, with errno\<close>
  | EvLogError int                  \<comment> \<open>\<open>log_error_errno\<close> with this error\<close>
  | EvRatelimit bool                \<comment> \<open>\<open>ratelimit_test\<close> answered\<close>
  | EvNotify "32 word"              \<comment> \<open>\<open>sd_notifyf\<close> and \<open>log_info\<close> with this percentage\<close>
  | EvCopyTimes
  | EvCopyXattr
  | EvOnFinished int                \<comment> \<open>the callback was called with result r\<close>
  | EvEventExit int                 \<comment> \<open>\<open>sd_event_exit\<close> with result r\<close>
  | EvClose int                     \<comment> \<open>this descriptor was closed\<close>

text \<open>The answers to one pass of the read loop: \<open>read\<close> returns \<open>rd_l\<close> (and errno
  \<open>rd_errno\<close> when negative); the compressor call that follows returns \<open>enc_r\<close> and
  appends \<open>enc_out\<close> to the buffer.\<close>

record read_answer =
  rd_l :: int
  rd_errno :: int
  enc_r :: int
  enc_out :: "byte list"

text \<open>The answers to one invocation of the transfer step.\<close>

record answers =
  reflink_r :: int
  sendfile_l :: int
  sendfile_errno :: int
  reads :: "read_answer list"
  write_l :: int
  write_errno :: int
  ratelimit_ok :: bool

subsection \<open>\<open>raw_export_new\<close>\<close>

text \<open>Lines 93-127, for a creation that succeeds: the engine is zeroed by \<open>new0\<close>, both
  descriptors are -1, the rate limiter allows one report per 100 ms, and the last
  percentage is the sentinel \<open>(unsigned) -1\<close>.\<close>

definition raw_export_new :: "bool \<Rightarrow> RawExport" where
  "raw_export_new cb =
     \<lparr> on_finished = cb, path = None, input_fd = -1, output_fd = -1,
       compress_type = IMPORT_COMPRESS_UNKNOWN, output_event_source = False,
       buffer = [], written_compressed = 0, written_uncompressed = 0,
       last_percent = - 1,
       progress_rate_limit = \<lparr> interval = 100 * USEC_PER_MSEC, burst = 1 \<rparr>,
       st_mode = 0, st_size = 0,
       eof = False, tried_reflink = False, tried_sendfile = False \<rparr>"

subsection \<open>\<open>raw_export_unref\<close>\<close>

text \<open>Lines 76-91. Of what is released only the descriptor is modelled: \<open>safe_close\<close>
  closes \<open>input_fd\<close> unless it is negative; \<open>output_fd\<close> is never closed.\<close>

definition raw_export_unref :: "RawExport \<Rightarrow> event list" where
  "raw_export_unref e = (if input_fd e \<ge> 0 then [EvClose (input_fd e)] else [])"

subsection \<open>\<open>raw_export_report_progress\<close>\<close>

text \<open>Lines 133-136. The comparison and the arithmetic are those of \<open>uint64_t\<close>; the
  quotient is cut to \<open>unsigned\<close>. A zero divisor is a trap, not a value.\<close>

definition progress_percent :: "RawExport \<Rightarrow> abort + 32 word" where
  "progress_percent e =
     (if written_uncompressed e \<ge> st_size e then Inr 100
      else if st_size e = 0 then Inl DivisionByZero
      else Inr (ucast ((written_uncompressed e * 100) div st_size e)))"

text \<open>Lines 138-147. \<open>limiter_ok\<close> is the answer of \<open>ratelimit_test\<close>, which is asked only
  when the percentage differs from the last one.\<close>

definition raw_export_report_progress :: "RawExport \<Rightarrow> bool \<Rightarrow> abort + RawExport \<times> event list" where
  "raw_export_report_progress e limiter_ok =
     (case progress_percent e of
        Inl a \<Rightarrow> Inl a
      | Inr percent \<Rightarrow>
          if percent = last_percent e then Inr (e, [])
          else if \<not> limiter_ok then Inr (e, [EvRatelimit False])
          else Inr (e\<lparr>last_percent := percent\<rparr>, [EvRatelimit True, EvNotify percent]))"

subsection \<open>\<open>raw_export_process\<close>\<close>

text \<open>How a block of the function ends: it falls through to the next block, it executes
  \<open>return 0\<close>, or it jumps to the label \<open>finish\<close> with a result r.\<close>

datatype flow = FallThrough | Return0 | GotoFinish int

type_synonym outcome = "abort + flow \<times> RawExport \<times> event list"

text \<open>Sequencing: the next block runs only when the previous one fell through; the
  events add up.\<close>

definition and_then :: "outcome \<Rightarrow> (RawExport \<Rightarrow> outcome) \<Rightarrow> outcome" where
  "and_then m f =
     (case m of
        Inl a \<Rightarrow> Inl a
      | Inr (FallThrough, e, evs) \<Rightarrow>
          (case f e of
             Inl a \<Rightarrow> Inl a
           | Inr (fl, e', evs') \<Rightarrow> Inr (fl, e', evs @ evs'))
      | Inr (fl, e, evs) \<Rightarrow> Inr (fl, e, evs))"

text \<open>Lines 156-169: the reflink fast path.\<close>

definition try_reflink :: "RawExport \<Rightarrow> answers \<Rightarrow> outcome" where
  "try_reflink e a =
     (if \<not> tried_reflink e \<and> compress_type e = IMPORT_COMPRESS_UNCOMPRESSED then
        (if reflink_r a \<ge> 0 then Inr (GotoFinish 0, e, [EvReflink (reflink_r a)])
         else Inr (FallThrough, e\<lparr>tried_reflink := True\<rparr>, [EvReflink (reflink_r a)]))
      else Inr (FallThrough, e, []))"

text \<open>Lines 171-190: the \<open>sendfile\<close> fast path.\<close>

definition try_sendfile :: "RawExport \<Rightarrow> answers \<Rightarrow> outcome" where
  "try_sendfile e a =
     (if \<not> tried_sendfile e \<and> compress_type e = IMPORT_COMPRESS_UNCOMPRESSED then
        (let l = sendfile_l a; ev = EvSendfile l (sendfile_errno a) in
         if l < 0 then
           (if sendfile_errno a = EAGAIN then Inr (Return0, e, [ev])
            else Inr (FallThrough, e\<lparr>tried_sendfile := True\<rparr>, [ev]))
         else if l = 0 then Inr (GotoFinish 0, e, [ev])
         else
           (let e1 = e\<lparr>written_uncompressed := written_uncompressed e + word_of_int l,
                       written_compressed := written_compressed e + word_of_int l\<rparr>
            in case raw_export_report_progress e1 (ratelimit_ok a) of
                 Inl x \<Rightarrow> Inl x
               | Inr (e2, evs) \<Rightarrow> Inr (Return0, e2, ev # evs)))
      else Inr (FallThrough, e, []))"

text \<open>Modelled from the spec: \<open>import_compress\<close> and \<open>import_compress_finish\<close> are not among
  the sources. Either appends the bytes it produces to the buffer and returns an error
  code (section 6); which bytes and which code is part of the answer.\<close>

fun import_compress :: "RawExport \<Rightarrow> read_answer \<Rightarrow> RawExport" where
  "import_compress e x = e\<lparr>buffer := buffer e @ enc_out x\<rparr>"

text \<open>Lines 192-217: the read loop, one answer per pass that reads. After \<open>read\<close> has
  returned 0 the compressor is finished, otherwise it is fed the l bytes read.\<close>

fun read_loop :: "RawExport \<Rightarrow> read_answer list \<Rightarrow> outcome" where
  "read_loop e [] =
     (if buffer e \<noteq> [] then Inr (FallThrough, e, [])
      else if eof e then Inr (GotoFinish 0, e, [])
      else Inl OutOfAnswers)"
| "read_loop e (x # xs) =
     (if buffer e \<noteq> [] then Inr (FallThrough, e, [])
      else if eof e then Inr (GotoFinish 0, e, [])
      else
        (let l = rd_l x; rd = EvRead l (rd_errno x) in
         if l < 0 then
           Inr (GotoFinish (log_error_errno (rd_errno x)), e, [rd, EvLogError (rd_errno x)])
         else
           (let e1 = (if l = 0 then import_compress (e\<lparr>eof := True\<rparr>) x
                      else import_compress
                        (e\<lparr>written_uncompressed := written_uncompressed e + word_of_int l\<rparr>) x);
                enc = (if l = 0 then EvCompressFinish (enc_r x) else EvCompress l (enc_r x))
            in if enc_r x < 0 then
                 Inr (GotoFinish (log_error_errno (enc_r x)), e1, [rd, enc, EvLogError (enc_r x)])
               else and_then (Inr (FallThrough, e1, [rd, enc])) (\<lambda>e2. read_loop e2 xs))))"

text \<open>Lines 219-235: one \<open>write\<close> of the whole buffer.\<close>

definition write_out :: "RawExport \<Rightarrow> answers \<Rightarrow> outcome" where
  "write_out e a =
     (let l = write_l a; ev = EvWrite (buffer e) l (write_errno a) in
      if l < 0 then
        (if write_errno a = EAGAIN then Inr (Return0, e, [ev])
         else Inr (GotoFinish (log_error_errno (write_errno a)), e, [ev, EvLogError (write_errno a)]))
      else if \<not> nat l \<le> length (buffer e) then Inl AssertionFailed
      else
        (let e1 = e\<lparr>buffer := drop (nat l) (buffer e),
                    written_compressed := written_compressed e + word_of_int l\<rparr>
         in case raw_export_report_progress e1 (ratelimit_ok a) of
              Inl x \<Rightarrow> Inl x
            | Inr (e2, evs) \<Rightarrow> Inr (Return0, e2, ev # evs)))"

text \<open>The function up to the label \<open>finish\<close>.\<close>

definition process_body :: "RawExport \<Rightarrow> answers \<Rightarrow> outcome" where
  "process_body e a =
     and_then (and_then (and_then (try_reflink e a)
       (\<lambda>e1. try_sendfile e1 a))
       (\<lambda>e2. read_loop e2 (reads a)))
       (\<lambda>e3. write_out e3 a)"

text \<open>Lines 237-248, after the label: the metadata is copied on success, then the
  callback is called, or the event loop is told to exit.\<close>

definition finish :: "RawExport \<Rightarrow> int \<Rightarrow> event list" where
  "finish e r =
     (if r \<ge> 0 then [EvCopyTimes, EvCopyXattr] else []) @
     [if on_finished e then EvOnFinished r else EvEventExit r]"

text \<open>The whole function: its return value, the engine afterwards, and the calls made.\<close>

definition raw_export_process :: "RawExport \<Rightarrow> answers \<Rightarrow> abort + int \<times> RawExport \<times> event list" where
  "raw_export_process e a =
     (case process_body e a of
        Inl x \<Rightarrow> Inl x
      | Inr (GotoFinish r, e', evs) \<Rightarrow> Inr (0, e', evs @ finish e' r)
      | Inr (fl, e', evs) \<Rightarrow> Inr (0, e', evs))"

text \<open>Lines 251-261: the two handlers registered with the event loop, for an output
  descriptor that can be polled and for one that cannot. Each calls the transfer step
  and returns what it returns.\<close>

definition raw_export_on_output :: "RawExport \<Rightarrow> answers \<Rightarrow> abort + int \<times> RawExport \<times> event list" where
  "raw_export_on_output i a = raw_export_process i a"

definition raw_export_on_defer :: "RawExport \<Rightarrow> answers \<Rightarrow> abort + int \<times> RawExport \<times> event list" where
  "raw_export_on_defer i a = raw_export_process i a"

subsection \<open>Runs of the transfer step\<close>

text \<open>The event loop calls the step once per notification. A run lists, for each call
  that returned, the engine after it and the calls it made; it ends early when a call
  stops the process.\<close>

fun run :: "RawExport \<Rightarrow> answers list \<Rightarrow> (RawExport \<times> event list) list" where
  "run e [] = []"
| "run e (a # as) =
     (case raw_export_process e a of
        Inl x \<Rightarrow> []
      | Inr (rv, e', evs) \<Rightarrow> (e', evs) # run e' as)"

definition run_events :: "RawExport \<Rightarrow> answers list \<Rightarrow> event list" where
  "run_events e as = concat (map snd (run e as))"

definition run_states :: "RawExport \<Rightarrow> answers list \<Rightarrow> RawExport list" where
  "run_states e as = e # map fst (run e as)"

definition run_final :: "RawExport \<Rightarrow> answers list \<Rightarrow> RawExport" where
  "run_final e as = last (run_states e as)"

subsection \<open>\<open>reflink_snapshot\<close> and \<open>raw_export_start\<close>\<close>

text \<open>The answers to \<open>reflink_snapshot\<close>: the two \<open>open\<close> calls, \<open>tempfn_random\<close> and
  \<open>btrfs_reflink\<close>.\<close>

record snapshot_answers =
  tmpfile_fd :: int
  tempfn_r :: int
  named_fd :: int
  named_errno :: int
  snap_reflink_r :: int

text \<open>Lines 263-292. The result is the new descriptor, or a negative error.\<close>

definition reflink_snapshot :: "int \<Rightarrow> snapshot_answers \<Rightarrow> int \<times> event list" where
  "reflink_snapshot fd a =
     (if tmpfile_fd a < 0 \<and> tempfn_r a < 0 then (tempfn_r a, [])
      else if tmpfile_fd a < 0 \<and> named_fd a < 0 then (- named_errno a, [])
      else
        (let new_fd = (if tmpfile_fd a < 0 then named_fd a else tmpfile_fd a) in
         if snap_reflink_r a < 0 then (snap_reflink_r a, [EvClose new_fd])
         else (new_fd, [])))"

text \<open>The answers to \<open>raw_export_start\<close>.\<close>

record start_answers =
  fd_nonblock_r :: int
  strdup_r :: int
  open_fd :: int
  open_errno :: int
  fstat_r :: int
  fstat_errno :: int
  fstat_mode :: "32 word"
  fstat_size :: "64 word"
  snapshot :: snapshot_answers
  compress_init_r :: int
  add_io_r :: int
  add_defer_r :: int
  set_enabled_r :: int

text \<open>The descriptors that \<open>_cleanup_close_\<close> closes when the function returns: each of
  \<open>sfd\<close> and \<open>tfd\<close> that is not negative then.\<close>

definition cleanup_close :: "int \<Rightarrow> int \<Rightarrow> event list" where
  "cleanup_close sfd tfd =
     (if tfd \<ge> 0 then [EvClose tfd] else []) @ (if sfd \<ge> 0 then [EvClose sfd] else [])"

text \<open>Modelled from the spec: \<open>import_compress_init\<close> is not among the sources. When it
  succeeds (its result r is not negative) the compressor is set up for the kind asked for
  (section 4.1, step 6); when it fails the engine is as before.\<close>

fun import_compress_init :: "RawExport \<Rightarrow> ImportCompressType \<Rightarrow> int \<Rightarrow> RawExport" where
  "import_compress_init e compress r = (if r < 0 then e else e\<lparr>compress_type := compress\<rparr>)"

text \<open>Lines 294-351. The two assertions on \<open>compress\<close> are the one test that it is not
  \<open>IMPORT_COMPRESS_UNKNOWN\<close>: every value of the type is below \<open>_IMPORT_COMPRESS_TYPE_MAX\<close>.\<close>

definition raw_export_start ::
  "RawExport \<Rightarrow> string \<Rightarrow> int \<Rightarrow> ImportCompressType \<Rightarrow> start_answers \<Rightarrow>
     abort + int \<times> RawExport \<times> event list" where
  "raw_export_start e p fd compress a =
     (if fd < 0 \<or> compress = IMPORT_COMPRESS_UNKNOWN then Inl AssertionFailed
      else if output_fd e \<ge> 0 then Inr (- EBUSY, e, [])
      else if fd_nonblock_r a < 0 then Inr (fd_nonblock_r a, e, [])
      else if strdup_r a < 0 then Inr (strdup_r a, e, [])
      else
        (let e1 = e\<lparr>path := Some p\<rparr>; sfd = open_fd a in
         if sfd < 0 then Inr (- open_errno a, e1, [])
         else if fstat_r a < 0 then Inr (- fstat_errno a, e1, cleanup_close sfd (- 1))
         else
           (let e2 = e1\<lparr>st_mode := fstat_mode a, st_size := fstat_size a\<rparr> in
            if \<not> S_ISREG (st_mode e2) then Inr (- ENOTTY, e2, cleanup_close sfd (- 1))
            else
              (let (tfd, sevs) = reflink_snapshot sfd (snapshot a);
                   e3 = e2\<lparr>input_fd := (if tfd \<ge> 0 then tfd else sfd)\<rparr>;
                   sfd' = (if tfd \<ge> 0 then sfd else - 1);
                   tfd' = (if tfd \<ge> 0 then - 1 else tfd);
                   cl = sevs @ cleanup_close sfd' tfd';
                   e4 = import_compress_init e3 compress (compress_init_r a)
               in if compress_init_r a < 0 then Inr (compress_init_r a, e4, cl)
                  else
                    (if add_io_r a = - EPERM then
                       (if add_defer_r a < 0 then Inr (add_defer_r a, e4, cl)
                        else
                          (let e5 = e4\<lparr>output_event_source := True\<rparr> in
                           if set_enabled_r a < 0 then Inr (set_enabled_r a, e5, cl)
                           else Inr (set_enabled_r a, e5\<lparr>output_fd := fd\<rparr>, cl)))
                     else if add_io_r a < 0 then Inr (add_io_r a, e4, cl)
                     else Inr (add_io_r a, e4\<lparr>output_event_source := True, output_fd := fd\<rparr>, cl))))))"

section \<open>Notions used in the statements\<close>

subsection \<open>Percentages\<close>

text \<open>The percentage as the specification words it: 100 once the bytes written reach
  the size, and \<open>floor (written * 100 / size)\<close> before.\<close>

definition spec_percent :: "nat \<Rightarrow> nat \<Rightarrow> nat" where
  "spec_percent w sz = (if w \<ge> sz then 100 else (w * 100) div sz)"

text \<open>The same with the product taken modulo \<open>2^64\<close>, as \<open>uint64_t\<close> arithmetic does.\<close>

definition wrapped_percent :: "nat \<Rightarrow> nat \<Rightarrow> nat" where
  "wrapped_percent w sz = (if w \<ge> sz then 100 else ((w * 100) mod 2 ^ 64) div sz)"

text \<open>The percentage for the counters of an engine, as an \<open>unsigned\<close>.\<close>

definition percent_now :: "RawExport \<Rightarrow> 32 word" where
  "percent_now e = word_of_nat (wrapped_percent (unat (written_uncompressed e)) (unat (st_size e)))"

subsection \<open>Events\<close>

text \<open>The finish action: the callback is called, or the event loop is told to exit.\<close>

fun is_finish :: "event \<Rightarrow> bool" where
  "is_finish (EvOnFinished r) = True"
| "is_finish (EvEventExit r) = True"
| "is_finish _ = False"

text \<open>The finish action with result 0.\<close>

fun is_success :: "event \<Rightarrow> bool" where
  "is_success (EvOnFinished r) = (r = 0)"
| "is_success (EvEventExit r) = (r = 0)"
| "is_success _ = False"

text \<open>The percentages emitted, in order.\<close>

fun notified :: "event list \<Rightarrow> 32 word list" where
  "notified [] = []"
| "notified (EvNotify p # evs) = p # notified evs"
| "notified (ev # evs) = notified evs"

text \<open>The number of bytes that \<open>sendfile\<close> and \<open>read\<close> have taken from the source.\<close>

fun consumed :: "event list \<Rightarrow> nat" where
  "consumed [] = 0"
| "consumed (EvSendfile l en # evs) = nat l + consumed evs"
| "consumed (EvRead l en # evs) = nat l + consumed evs"
| "consumed (ev # evs) = consumed evs"

text \<open>A call of \<open>btrfs_reflink\<close>.\<close>

fun attempts_reflink :: "event \<Rightarrow> bool" where
  "attempts_reflink (EvReflink r) = True"
| "attempts_reflink _ = False"

text \<open>A call of \<open>sendfile\<close>.\<close>

fun attempts_sendfile :: "event \<Rightarrow> bool" where
  "attempts_sendfile (EvSendfile l en) = True"
| "attempts_sendfile _ = False"

text \<open>A call of \<open>btrfs_reflink\<close> that succeeded.\<close>

fun reflink_succeeded :: "event \<Rightarrow> bool" where
  "reflink_succeeded (EvReflink r) = (0 \<le> r)"
| "reflink_succeeded _ = False"

text \<open>A call of \<open>btrfs_reflink\<close> that failed.\<close>

fun reflink_failed :: "event \<Rightarrow> bool" where
  "reflink_failed (EvReflink r) = (r < 0)"
| "reflink_failed _ = False"

text \<open>A call of \<open>sendfile\<close> that failed with an error other than \<open>EAGAIN\<close>.\<close>

fun sendfile_failed :: "event \<Rightarrow> bool" where
  "sendfile_failed (EvSendfile l en) = (l < 0 \<and> en \<noteq> EAGAIN)"
| "sendfile_failed _ = False"

text \<open>A call that found the source exhausted: \<open>read\<close> or \<open>sendfile\<close> returned 0.\<close>

fun zero_transfer :: "event \<Rightarrow> bool" where
  "zero_transfer (EvRead l en) = (l = 0)"
| "zero_transfer (EvSendfile l en) = (l = 0)"
| "zero_transfer _ = False"

text \<open>The calls made inside the read loop.\<close>

fun loop_event :: "event \<Rightarrow> bool" where
  "loop_event (EvRead l en) = True"
| "loop_event (EvCompress l r) = True"
| "loop_event (EvCompressFinish r) = True"
| "loop_event (EvLogError r) = True"
| "loop_event _ = False"

subsection \<open>Assumptions on the answers\<close>

text \<open>An answer that brings the read loop to an end: \<open>read\<close> fails or finds the end of the
  input, the compressor fails, or the compressor puts something into the buffer.\<close>

definition loop_ends :: "read_answer \<Rightarrow> bool" where
  "loop_ends x = (rd_l x \<le> 0 \<or> enc_r x < 0 \<or> enc_out x \<noteq> [])"

text \<open>A failed \<open>read\<close> or \<open>write\<close> sets \<open>errno\<close> to a positive number.\<close>

fun errno_ok :: "event \<Rightarrow> bool" where
  "errno_ok (EvRead l en) = (l < 0 \<longrightarrow> 0 < en)"
| "errno_ok (EvWrite b l en) = (l < 0 \<longrightarrow> 0 < en)"
| "errno_ok _ = True"

text \<open>The calls that read the source behave as on an unchanging file of which \<open>left\<close>
  bytes lie after the offset: no call returns more than is left, and a call returns 0
  only when nothing is left.\<close>

fun reads_file :: "nat \<Rightarrow> event list \<Rightarrow> bool" where
  "reads_file left [] = True"
| "reads_file left (EvSendfile l en # evs) =
     (if l < 0 then reads_file left evs
      else nat l \<le> left \<and> (l = 0 \<longrightarrow> left = 0) \<and> reads_file (left - nat l) evs)"
| "reads_file left (EvRead l en # evs) =
     (if l < 0 then reads_file left evs
      else nat l \<le> left \<and> (l = 0 \<longrightarrow> left = 0) \<and> reads_file (left - nat l) evs)"
| "reads_file left (ev # evs) = reads_file left evs"


subsection \<open>The outcome of a step, read off the answers\<close>

text \<open>The step gets as far as the read loop: the export compresses, or the reflink is out of the
  way (tried before, or failing now) and so is \<open>sendfile\<close> (tried before, or failing now
  with an error other than \<open>EAGAIN\<close>).\<close>

definition reaches_loop :: "RawExport \<Rightarrow> answers \<Rightarrow> bool" where
  "reaches_loop e a =
     (compress_type e \<noteq> IMPORT_COMPRESS_UNCOMPRESSED \<or>
      (tried_reflink e \<or> reflink_r a < 0) \<and>
      (tried_sendfile e \<or> sendfile_l a < 0 \<and> sendfile_errno a \<noteq> EAGAIN))"

text \<open>The outcome of the call of \<open>write\<close>: terminal when it fails with an error other than
  \<open>EAGAIN\<close>.\<close>

definition write_outcome :: "answers \<Rightarrow> int option" where
  "write_outcome a =
     (if write_l a < 0 \<and> write_errno a \<noteq> EAGAIN then Some (log_error_errno (write_errno a))
      else None)"

text \<open>The terminal outcome of a step and its result, read off the engine and the answers
  without running the step: the reflink succeeds; \<open>sendfile\<close> returns 0; with bytes
  pending, \<open>write\<close> fails; with nothing pending, the input is exhausted or, going by the
  first answer that ends the read loop, \<open>read\<close> fails, the compressor fails, \<open>write\<close>
  fails on what the compressor produced, or the end of the input leaves the buffer empty.
  \<open>None\<close> when the step has no terminal outcome.\<close>

definition terminal_outcome :: "RawExport \<Rightarrow> answers \<Rightarrow> int option" where
  "terminal_outcome e a =
     (if compress_type e = IMPORT_COMPRESS_UNCOMPRESSED \<and> \<not> tried_reflink e \<and> 0 \<le> reflink_r a
      then Some 0
      else if compress_type e = IMPORT_COMPRESS_UNCOMPRESSED \<and> \<not> tried_sendfile e \<and> sendfile_l a = 0
      then Some 0
      else if \<not> reaches_loop e a then None
      else if buffer e \<noteq> [] then write_outcome a
      else if eof e then Some 0
      else
        (case find loop_ends (reads a) of
           None \<Rightarrow> None
         | Some x \<Rightarrow>
             if rd_l x < 0 then Some (log_error_errno (rd_errno x))
             else if enc_r x < 0 then Some (log_error_errno (enc_r x))
             else if enc_out x \<noteq> [] then write_outcome a
             else Some 0))"

text \<open>The step gets as far as the call of \<open>write\<close>: it gets to the read loop, and bytes are
  pending or the first answer that ends the loop puts some into the buffer.\<close>

definition reaches_write :: "RawExport \<Rightarrow> answers \<Rightarrow> bool" where
  "reaches_write e a =
     (reaches_loop e a \<and>
      (buffer e \<noteq> [] \<or>
       \<not> eof e \<and>
       (case find loop_ends (reads a) of
          None \<Rightarrow> False
        | Some x \<Rightarrow> 0 \<le> rd_l x \<and> 0 \<le> enc_r x \<and> enc_out x \<noteq> [])))"

text \<open>The bytes the step hands to \<open>write\<close> when it gets there.\<close>

definition write_handed :: "RawExport \<Rightarrow> answers \<Rightarrow> byte list" where
  "write_handed e a =
     (if buffer e \<noteq> [] then buffer e
      else case find loop_ends (reads a) of None \<Rightarrow> [] | Some x \<Rightarrow> enc_out x)"

text \<open>\<open>write\<close> is called and reports more bytes than it was handed: the assertion of line
  228 fails.\<close>

definition write_overrun :: "RawExport \<Rightarrow> answers \<Rightarrow> bool" where
  "write_overrun e a = (reaches_write e a \<and> int (length (write_handed e a)) < write_l a)"

text \<open>The read loop is entered with nothing pending and none of the answers it is given ends
  it (in the model only).\<close>

definition starved :: "RawExport \<Rightarrow> answers \<Rightarrow> bool" where
  "starved e a =
     (reaches_loop e a \<and> buffer e = [] \<and> \<not> eof e \<and> \<not> list_ex loop_ends (reads a))"

subsection \<open>The engine over a run\<close>

text \<open>What the transfer step leaves alone.\<close>

definition frame :: "RawExport \<Rightarrow> RawExport \<Rightarrow> bool" where
  "frame e e' =
     (on_finished e' = on_finished e \<and> path e' = path e \<and> input_fd e' = input_fd e \<and>
      output_fd e' = output_fd e \<and> compress_type e' = compress_type e \<and>
      output_event_source e' = output_event_source e \<and>
      progress_rate_limit e' = progress_rate_limit e \<and> st_mode e' = st_mode e \<and>
      st_size e' = st_size e)"


text \<open>The number of steps of a run that have a terminal outcome.\<close>

fun terminal_steps :: "RawExport \<Rightarrow> answers list \<Rightarrow> nat" where
  "terminal_steps e [] = 0"
| "terminal_steps e (a # as) =
     (case raw_export_process e a of
        Inl x \<Rightarrow> 0
      | Inr (rv, e', evs) \<Rightarrow>
          (if terminal_outcome e a = None then 0 else 1) + terminal_steps e' as)"

text \<open>How often a flag goes from \<open>x\<close> to \<open>y\<close> between neighbours of a history.\<close>

fun transitions :: "bool \<Rightarrow> bool \<Rightarrow> bool list \<Rightarrow> nat" where
  "transitions x y (b # c # bs) = (if b = x \<and> c = y then 1 else 0) + transitions x y (c # bs)"
| "transitions x y bs = 0"

subsection \<open>Sample engines and answers\<close>

text \<open>Every call of \<open>raw_export_start\<close> succeeds: the source is a regular file
  (\<open>st_mode = 0100644\<close>) of the given size, opened as descriptor 5; the file system cannot
  reflink (\<open>EOPNOTSUPP\<close>), so the snapshot file, descriptor 6, is closed again.\<close>

definition good_start :: "64 word \<Rightarrow> start_answers" where
  "good_start sz =
     \<lparr> fd_nonblock_r = 0, strdup_r = 0, open_fd = 5, open_errno = 0,
       fstat_r = 0, fstat_errno = 0, fstat_mode = 0x81A4, fstat_size = sz,
       snapshot = \<lparr> tmpfile_fd = 6, tempfn_r = 0, named_fd = - 1, named_errno = 0,
                    snap_reflink_r = - 95 \<rparr>,
       compress_init_r = 0, add_io_r = 0, add_defer_r = 0, set_enabled_r = 0 \<rparr>"

text \<open>The engine that \<open>raw_export_new\<close> with a callback and then \<open>raw_export_start\<close> on
  output descriptor 4 with these answers lead to (lemma \<open>started_engine_by_start\<close>).\<close>

definition started_engine :: "ImportCompressType \<Rightarrow> 64 word \<Rightarrow> RawExport" where
  "started_engine c sz =
     (raw_export_new True)\<lparr> path := Some ''image.raw'', input_fd := 5, output_fd := 4,
        compress_type := c, output_event_source := True, st_mode := 0x81A4, st_size := sz \<rparr>"

text \<open>An export of 1000 bytes, half way.\<close>

definition half_way :: RawExport where
  "half_way =
     (started_engine IMPORT_COMPRESS_UNCOMPRESSED 1000)
       \<lparr> tried_reflink := True, written_uncompressed := 500, written_compressed := 500 \<rparr>"

text \<open>An export of a sparse file of 4 EiB, after \<open>2^58\<close> bytes have gone through
  \<open>sendfile\<close>.\<close>

definition far_into_huge_export :: RawExport where
  "far_into_huge_export =
     (started_engine IMPORT_COMPRESS_UNCOMPRESSED 0x4000000000000000)
       \<lparr> tried_reflink := True, written_uncompressed := 0x0400000000000000,
         written_compressed := 0x0400000000000000 \<rparr>"



text \<open>The compressor cannot be set up (\<open>ENOMEM\<close>); the source was opened as descriptor 5
  and no snapshot could be taken.\<close>

definition start_compress_fails :: start_answers where
  "start_compress_fails = (good_start 4096)\<lparr> compress_init_r := - 12 \<rparr>"

text \<open>A second attempt in which every call succeeds; descriptor 5 being still open, the
  source is opened as descriptor 6 and the snapshot file as descriptor 7.\<close>

definition start_again :: start_answers where
  "start_again =
     (good_start 4096)\<lparr> open_fd := 6, snapshot := (snapshot (good_start 4096))\<lparr> tmpfile_fd := 7 \<rparr> \<rparr>"

text \<open>The file system cannot reflink and the output is not ready for \<open>sendfile\<close>.\<close>

definition would_block :: answers where
  "would_block =
     \<lparr> reflink_r = - 95, sendfile_l = - 1, sendfile_errno = EAGAIN, reads = [],
       write_l = 0, write_errno = 0, ratelimit_ok = True \<rparr>"

text \<open>The reflink of the whole file works.\<close>

definition reflink_works :: answers where
  "reflink_works =
     \<lparr> reflink_r = 0, sendfile_l = 0, sendfile_errno = 0, reads = [],
       write_l = 0, write_errno = 0, ratelimit_ok = True \<rparr>"

text \<open>\<open>sendfile\<close> cannot be used on this pair of descriptors (\<open>EINVAL\<close>), and neither can
  a reflink; the step falls back to reading three bytes and writing them.\<close>

definition sendfile_unsupported :: answers where
  "sendfile_unsupported =
     \<lparr> reflink_r = - 95, sendfile_l = - 1, sendfile_errno = 22,
       reads = [\<lparr> rd_l = 3, rd_errno = 0, enc_r = 0, enc_out = [1, 2, 3] \<rparr>],
       write_l = 3, write_errno = 0, ratelimit_ok = True \<rparr>"

text \<open>\<open>read\<close> finds the end of the input, the compressor's trailer is two bytes, and
  \<open>write\<close> takes both.\<close>

definition last_flush :: answers where
  "last_flush =
     \<lparr> reflink_r = 0, sendfile_l = 0, sendfile_errno = 0,
       reads = [\<lparr> rd_l = 0, rd_errno = 0, enc_r = 0, enc_out = [31, 139] \<rparr>],
       write_l = 2, write_errno = 0, ratelimit_ok = True \<rparr>"

text \<open>\<open>read\<close> fails with \<open>EIO\<close>.\<close>

definition read_fails :: answers where
  "read_fails =
     \<lparr> reflink_r = 0, sendfile_l = 0, sendfile_errno = 0,
       reads = [\<lparr> rd_l = - 1, rd_errno = 5, enc_r = 0, enc_out = [] \<rparr>],
       write_l = 0, write_errno = 0, ratelimit_ok = True \<rparr>"

text \<open>The compressor fails with \<open>ENOMEM\<close> on three bytes read.\<close>

definition encode_fails :: answers where
  "encode_fails =
     \<lparr> reflink_r = 0, sendfile_l = 0, sendfile_errno = 0,
       reads = [\<lparr> rd_l = 3, rd_errno = 0, enc_r = - 12, enc_out = [] \<rparr>],
       write_l = 0, write_errno = 0, ratelimit_ok = True \<rparr>"

text \<open>\<open>write\<close> fails with \<open>EPIPE\<close> on the three bytes that the compressor produced from
  three bytes read.\<close>

definition write_fails :: answers where
  "write_fails =
     \<lparr> reflink_r = 0, sendfile_l = 0, sendfile_errno = 0,
       reads = [\<lparr> rd_l = 3, rd_errno = 0, enc_r = 0, enc_out = [1, 2, 3] \<rparr>],
       write_l = - 1, write_errno = 32, ratelimit_ok = True \<rparr>"

text \<open>The compressor keeps the five bytes of a first pass to itself and produces three
  bytes from the four of a second pass; \<open>write\<close> takes the three.\<close>

definition two_passes :: answers where
  "two_passes =
     \<lparr> reflink_r = 0, sendfile_l = 0, sendfile_errno = 0,
       reads = [\<lparr> rd_l = 5, rd_errno = 0, enc_r = 0, enc_out = [] \<rparr>,
                \<lparr> rd_l = 4, rd_errno = 0, enc_r = 0, enc_out = [1, 2, 3] \<rparr>],
       write_l = 3, write_errno = 0, ratelimit_ok = True \<rparr>"

text \<open>The file system cannot reflink; \<open>sendfile\<close> moves three bytes.\<close>

definition sendfile_three :: answers where
  "sendfile_three =
     \<lparr> reflink_r = - 95, sendfile_l = 3, sendfile_errno = 0, reads = [],
       write_l = 0, write_errno = 0, ratelimit_ok = True \<rparr>"

text \<open>The file system cannot reflink; \<open>sendfile\<close> moves two bytes.\<close>

definition sendfile_two :: answers where
  "sendfile_two =
     \<lparr> reflink_r = - 95, sendfile_l = 2, sendfile_errno = 0, reads = [],
       write_l = 0, write_errno = 0, ratelimit_ok = True \<rparr>"

text \<open>\<open>sendfile\<close> finds the source exhausted.\<close>

definition sendfile_done :: answers where
  "sendfile_done =
     \<lparr> reflink_r = - 95, sendfile_l = 0, sendfile_errno = 0, reads = [],
       write_l = 0, write_errno = 0, ratelimit_ok = True \<rparr>"

text \<open>\<open>sendfile\<close> moves a full chunk of 16 KiB; the rate limiter refuses.\<close>

definition chunk_quiet :: answers where
  "chunk_quiet =
     \<lparr> reflink_r = - 95, sendfile_l = int COPY_BUFFER_SIZE, sendfile_errno = 0, reads = [],
       write_l = 0, write_errno = 0, ratelimit_ok = False \<rparr>"

text \<open>The same, and the rate limiter allows a report.\<close>

definition chunk_loud :: answers where
  "chunk_loud = chunk_quiet\<lparr> ratelimit_ok := True \<rparr>"

text \<open>The export of a sparse file of \<open>2^62\<close> bytes in chunks of 16 KiB: progress is
  reported after the first chunk, after \<open>2^57\<close> bytes and after \<open>2^58\<close> bytes.\<close>

definition huge_export_steps :: "answers list" where
  "huge_export_steps =
     chunk_loud # replicate 8796093022206 chunk_quiet @
     chunk_loud # replicate 8796093022207 chunk_quiet @ [chunk_loud]"

section \<open>Lemmas\<close>

subsection \<open>The percentage\<close>

lemma wrapped_percent_le: "wrapped_percent w sz \<le> 100"
proof (cases "w \<ge> sz")
  case True
  then show ?thesis by (simp add: wrapped_percent_def)
next
  case False
  then have lt: "w < sz" by simp
  have "(w * 100) mod 2 ^ 64 \<le> w * 100" by simp
  also have "\<dots> < sz * 100" using lt by simp
  finally have "((w * 100) mod 2 ^ 64) div sz < 100"
    using lt by (simp add: less_mult_imp_div_less)
  then show ?thesis using False by (simp add: wrapped_percent_def)
qed

lemma wrapped_percent_spec: "w * 100 < 2 ^ 64 \<Longrightarrow> wrapped_percent w sz = spec_percent w sz"
  by (simp add: wrapped_percent_def spec_percent_def)

lemma wrapped_percent_mono:
  assumes "sz * 100 < 2 ^ 64" "w \<le> w'"
  shows "wrapped_percent w sz \<le> wrapped_percent w' sz"
proof (cases "w' \<ge> sz")
  case True
  then show ?thesis using wrapped_percent_le [of w sz] by (simp add: wrapped_percent_def)
next
  case False
  then have "w < sz" "w' < sz" using assms(2) by simp_all
  then have "w * 100 < 2 ^ 64" "w' * 100 < 2 ^ 64" using assms(1) by simp_all
  then show ?thesis
    using \<open>w < sz\<close> \<open>w' < sz\<close> assms(2) by (simp add: wrapped_percent_def div_le_mono)
qed

lemma ucast_of_nat_down: "(ucast (word_of_nat n :: 64 word) :: 32 word) = word_of_nat n"
  by transfer simp

lemma progress_percent_eq:
  "progress_percent e = Inr (word_of_nat (wrapped_percent (unat (written_uncompressed e)) (unat (st_size e))))"
proof (cases "written_uncompressed e \<ge> st_size e")
  case True
  then show ?thesis by (simp add: progress_percent_def wrapped_percent_def word_le_nat_alt)
next
  case False
  then have lt: "unat (written_uncompressed e) < unat (st_size e)"
    by (simp add: word_le_nat_alt)
  then have nz: "st_size e \<noteq> 0" by (auto simp: unat_eq_0)
  have u: "unat ((written_uncompressed e * 100) div st_size e)
        = ((unat (written_uncompressed e) * 100) mod 2 ^ 64) div unat (st_size e)"
    by (simp add: unat_div unat_word_ariths)
  have "(written_uncompressed e * 100) div st_size e
        = word_of_nat (unat ((written_uncompressed e * 100) div st_size e))"
    by simp
  then have "(written_uncompressed e * 100) div st_size e
        = word_of_nat (((unat (written_uncompressed e) * 100) mod 2 ^ 64) div unat (st_size e))"
    by (simp only: u)
  then show ?thesis using False lt nz
    by (simp add: progress_percent_def wrapped_percent_def word_le_nat_alt ucast_of_nat_down)
qed

lemma report_progress_eq:
  "raw_export_report_progress e ok =
     (if percent_now e = last_percent e then Inr (e, [])
      else if \<not> ok then Inr (e, [EvRatelimit False])
      else Inr (e\<lparr>last_percent := percent_now e\<rparr>, [EvRatelimit True, EvNotify (percent_now e)]))"
  by (simp add: raw_export_report_progress_def progress_percent_eq percent_now_def)

lemma unat_percent_now: "unat (percent_now e) = wrapped_percent (unat (written_uncompressed e)) (unat (st_size e))"
proof -
  have "wrapped_percent (unat (written_uncompressed e)) (unat (st_size e)) < 2 ^ 32"
    using wrapped_percent_le [of "unat (written_uncompressed e)" "unat (st_size e)"] by simp
  then show ?thesis
    by (simp add: percent_now_def unat_of_nat take_bit_nat_eq_self)
qed

lemma percent_now_last [simp]: "percent_now (e\<lparr>last_percent := p\<rparr>) = percent_now e"
  by (simp add: percent_now_def)

lemma percent_now_le: "percent_now e \<le> 100"
proof -
  have "unat (percent_now e) \<le> unat (100 :: 32 word)"
    using wrapped_percent_le by (simp add: unat_percent_now)
  then show ?thesis by (simp only: word_le_nat_alt)
qed

lemma percent_now_not_sentinel: "percent_now e \<noteq> - 1"
proof
  assume "percent_now e = - 1"
  with percent_now_le [of e] have "(- 1 :: 32 word) \<le> 100" by simp
  then show False
    by (simp add: word_le_nat_alt unsigned_minus_1_eq_mask mask_eq_exp_minus_1)
qed

lemma progress_percent_no_trap: "progress_percent e \<noteq> Inl x"
  by (simp add: progress_percent_eq)

lemma report_progress_no_trap: "raw_export_report_progress e ok \<noteq> Inl x"
  by (simp add: report_progress_eq)

subsection \<open>The blocks of the transfer step\<close>

lemma and_then_Inr:
  "and_then m f = Inr (fl, e', evs) \<longleftrightarrow>
     (fl \<noteq> FallThrough \<and> m = Inr (fl, e', evs)) \<or>
     (\<exists>e1 evs1 evs2. m = Inr (FallThrough, e1, evs1) \<and> f e1 = Inr (fl, e', evs2) \<and> evs = evs1 @ evs2)"
  by (auto simp: and_then_def split: sum.splits prod.splits flow.splits)

lemma and_then_Inl:
  "and_then m f = Inl x \<longleftrightarrow>
     m = Inl x \<or> (\<exists>e1 evs1. m = Inr (FallThrough, e1, evs1) \<and> f e1 = Inl x)"
  by (auto simp: and_then_def split: sum.splits prod.splits flow.splits)

lemma consumed_append: "consumed (xs @ ys) = consumed xs + consumed ys"
  by (induction xs rule: consumed.induct) simp_all

lemma notified_append: "notified (xs @ ys) = notified xs @ notified ys"
  by (induction xs rule: notified.induct) simp_all

lemma frame_trans: "frame e e1 \<Longrightarrow> frame e1 e2 \<Longrightarrow> frame e e2"
  by (simp add: frame_def)

lemma try_reflink_frame: "try_reflink e a = Inr (fl, e', evs) \<Longrightarrow> frame e e'"
  by (auto simp: try_reflink_def frame_def split: if_splits)

lemma try_sendfile_frame: "try_sendfile e a = Inr (fl, e', evs) \<Longrightarrow> frame e e'"
  by (auto simp: try_sendfile_def report_progress_eq frame_def Let_def split: if_splits)

lemma read_loop_frame: "read_loop e xs = Inr (fl, e', evs) \<Longrightarrow> frame e e'"
proof (induction xs arbitrary: e fl e' evs)
  case Nil
  then show ?case by (auto simp: frame_def split: if_splits)
next
  case (Cons x xs)
  from Cons.prems show ?case
    by (auto simp: Let_def and_then_Inr frame_def split: if_splits dest!: Cons.IH)
qed

lemma write_out_frame: "write_out e a = Inr (fl, e', evs) \<Longrightarrow> frame e e'"
  by (auto simp: write_out_def report_progress_eq frame_def Let_def split: if_splits)

lemma process_body_frame: "process_body e a = Inr (fl, e', evs) \<Longrightarrow> frame e e'"
  unfolding process_body_def and_then_Inr
  by (blast intro: frame_trans try_reflink_frame try_sendfile_frame read_loop_frame write_out_frame)

lemma raw_export_process_Inr:
  "raw_export_process e a = Inr (rv, e', evs) \<longleftrightarrow>
     rv = 0 \<and> (\<exists>fl evs1. process_body e a = Inr (fl, e', evs1) \<and>
        evs = evs1 @ (case fl of GotoFinish r \<Rightarrow> finish e' r | _ \<Rightarrow> []))"
  by (auto simp: raw_export_process_def split: sum.splits prod.splits flow.splits)

lemma raw_export_process_Inl:
  "raw_export_process e a = Inl x \<longleftrightarrow> process_body e a = Inl x"
  by (auto simp: raw_export_process_def split: sum.splits prod.splits flow.splits)

lemma raw_export_process_frame: "raw_export_process e a = Inr (rv, e', evs) \<Longrightarrow> frame e e'"
  by (auto simp: raw_export_process_Inr dest: process_body_frame)

lemma read_loop_no_trap: "read_loop e xs = Inl x \<Longrightarrow> x = OutOfAnswers"
proof (induction xs arbitrary: e)
  case Nil
  then show ?case by (simp split: if_splits)
next
  case (Cons y ys)
  from Cons.prems show ?case
    by (auto simp: Let_def and_then_Inl split: if_splits dest: Cons.IH)
qed

lemma write_out_Inl: "write_out e a = Inl x \<longleftrightarrow> x = AssertionFailed \<and> int (length (buffer e)) < write_l a"
  by (auto simp: write_out_def Let_def report_progress_eq split: if_splits)

lemma process_body_Inl:
  "process_body e a = Inl x \<Longrightarrow> x = OutOfAnswers \<or> x = AssertionFailed"
  unfolding process_body_def and_then_Inl
  by (auto simp: try_reflink_def try_sendfile_def Let_def report_progress_eq write_out_Inl
      split: if_splits dest: read_loop_no_trap)

lemma last_finish: "last (evs @ finish e r) = (if on_finished e then EvOnFinished r else EvEventExit r)"
  by (simp add: finish_def)

lemma read_loop_facts:
  "read_loop e xs = Inr (fl, e', evs) \<Longrightarrow>
     tried_reflink e' = tried_reflink e \<and> tried_sendfile e' = tried_sendfile e \<and>
     written_compressed e' = written_compressed e \<and> last_percent e' = last_percent e \<and>
     (eof e \<longrightarrow> eof e') \<and> list_all loop_event evs \<and> fl \<noteq> Return0 \<and>
     (fl = FallThrough \<longrightarrow> buffer e' \<noteq> [])"
proof (induction xs arbitrary: e fl e' evs)
  case Nil
  then show ?case by (auto split: if_splits)
next
  case (Cons x xs)
  from Cons.prems show ?case
    by (auto simp: Let_def and_then_Inr split: if_splits dest!: Cons.IH)
qed



lemma and_then_cases [consumes 1, case_names stop go]:
  assumes "and_then m f = Inr (fl, e', evs)"
  obtains "m = Inr (fl, e', evs)" "fl \<noteq> FallThrough"
  | e1 evs1 evs2 where "m = Inr (FallThrough, e1, evs1)" "f e1 = Inr (fl, e', evs2)"
      "evs = evs1 @ evs2"
  using assms unfolding and_then_Inr by blast

lemma process_body_cases [consumes 1, case_names reflink sendfile rloop wout]:
  assumes "process_body e a = Inr (fl, e', evs)"
  obtains
    "try_reflink e a = Inr (fl, e', evs)" "fl \<noteq> FallThrough"
  | e1 evs1 evs2 where
      "try_reflink e a = Inr (FallThrough, e1, evs1)"
      "try_sendfile e1 a = Inr (fl, e', evs2)" "fl \<noteq> FallThrough" "evs = evs1 @ evs2"
  | e1 evs1 e2 evs2 evs3 where
      "try_reflink e a = Inr (FallThrough, e1, evs1)"
      "try_sendfile e1 a = Inr (FallThrough, e2, evs2)"
      "read_loop e2 (reads a) = Inr (fl, e', evs3)" "fl \<noteq> FallThrough"
      "evs = evs1 @ evs2 @ evs3"
  | e1 evs1 e2 evs2 e3 evs3 evs4 where
      "try_reflink e a = Inr (FallThrough, e1, evs1)"
      "try_sendfile e1 a = Inr (FallThrough, e2, evs2)"
      "read_loop e2 (reads a) = Inr (FallThrough, e3, evs3)"
      "write_out e3 a = Inr (fl, e', evs4)" "fl \<noteq> FallThrough"
      "evs = evs1 @ evs2 @ evs3 @ evs4"
proof -
  let ?m2 = "and_then (try_reflink e a) (\<lambda>e1. try_sendfile e1 a)"
  let ?m3 = "and_then ?m2 (\<lambda>e2. read_loop e2 (reads a))"
  have nf: "write_out e3 a \<noteq> Inr (FallThrough, e'', evs'')" for e3 e'' evs''
    by (auto simp: write_out_def Let_def report_progress_eq split: if_splits)
  from assms have top: "and_then ?m3 (\<lambda>e3. write_out e3 a) = Inr (fl, e', evs)"
    by (simp add: process_body_def)
  then show thesis
  proof (cases rule: and_then_cases)
    case stop
    from stop(1) show thesis
    proof (cases rule: and_then_cases)
      case stop
      from stop(1) show thesis
      proof (cases rule: and_then_cases)
        case stop
        then show thesis using that(1) \<open>fl \<noteq> FallThrough\<close> by blast
      next
        case (go e1 evs1 evs2)
        then show thesis using that(2) \<open>fl \<noteq> FallThrough\<close> by blast
      qed
    next
      case (go e2 evs12 evs3)
      from go(1) show thesis
      proof (cases rule: and_then_cases)
        case stop
        then show thesis by simp
      next
        case inner: (go e1 evs1 evs2)
        show thesis
          using that(3) [OF inner(1) inner(2) go(2) \<open>fl \<noteq> FallThrough\<close>] go(3) inner(3) by simp
      qed
    qed
  next
    case (go e3 evs123 evs4)
    have fl: "fl \<noteq> FallThrough" using go(2) nf by blast
    from go(1) show thesis
    proof (cases rule: and_then_cases)
      case stop
      then show thesis by simp
    next
      case mid: (go e2 evs12 evs3)
      from mid(1) show thesis
      proof (cases rule: and_then_cases)
        case stop
        then show thesis by simp
      next
        case inner: (go e1 evs1 evs2)
        show thesis
          using that(4) [OF inner(1) inner(2) mid(2) go(2) fl] go(3) mid(3) inner(3) by simp
      qed
    qed
  qed
qed

lemma try_reflink_facts:
  "try_reflink e a = Inr (fl, e', evs) \<Longrightarrow>
     (tried_reflink e \<longrightarrow> tried_reflink e' \<and> evs = []) \<and>
     tried_sendfile e' = tried_sendfile e \<and>
     written_compressed e' = written_compressed e \<and>
     written_uncompressed e' = written_uncompressed e \<and>
     last_percent e' = last_percent e \<and> buffer e' = buffer e \<and> eof e' = eof e \<and>
     (fl = FallThrough \<longrightarrow> compress_type e \<noteq> IMPORT_COMPRESS_UNCOMPRESSED \<or> tried_reflink e') \<and>
     (fl = FallThrough \<or> fl = GotoFinish 0) \<and>
     (\<forall>ev \<in> set evs. \<exists>r. ev = EvReflink r)"
  by (auto simp: try_reflink_def split: if_splits)


lemma loop_events_plain:
  "list_all loop_event evs \<Longrightarrow>
     (\<forall>b l en. EvWrite b l en \<notin> set evs) \<and> \<not> list_ex is_finish evs \<and> notified evs = []"
  by (induction evs) (auto elim: loop_event.elims)

lemma try_reflink_quiet:
  "try_reflink e a = Inr (fl, e', evs) \<Longrightarrow>
     \<not> list_ex is_finish evs \<and> EvWrite b l en \<notin> set evs \<and> notified evs = [] \<and> consumed evs = 0"
  by (auto simp: try_reflink_def split: if_splits)

lemma try_sendfile_quiet:
  "try_sendfile e a = Inr (fl, e', evs) \<Longrightarrow> \<not> list_ex is_finish evs \<and> EvWrite b l en \<notin> set evs"
  by (auto simp: try_sendfile_def Let_def report_progress_eq split: if_splits)

lemma read_loop_quiet:
  "read_loop e xs = Inr (fl, e', evs) \<Longrightarrow>
     \<not> list_ex is_finish evs \<and> EvWrite b l en \<notin> set evs \<and> notified evs = []"
  using read_loop_facts [of e xs fl e' evs] loop_events_plain [of evs] by blast

lemma write_out_quiet:
  "write_out e a = Inr (fl, e', evs) \<Longrightarrow> \<not> list_ex is_finish evs"
  by (auto simp: write_out_def Let_def report_progress_eq split: if_splits)

lemma process_body_no_finish:
  assumes "process_body e a = Inr (fl, e', evs)"
  shows "\<not> list_ex is_finish evs"
  using assms
proof (cases rule: process_body_cases)
  case reflink
  then show ?thesis by (simp add: try_reflink_quiet)
next
  case (sendfile e1 evs1 evs2)
  then show ?thesis
    using try_reflink_quiet [of e a FallThrough e1 evs1] try_sendfile_quiet [of e1 a fl e' evs2]
    by simp
next
  case (rloop e1 evs1 e2 evs2 evs3)
  then show ?thesis
    using try_reflink_quiet [of e a FallThrough e1 evs1]
      try_sendfile_quiet [of e1 a FallThrough e2 evs2]
      read_loop_quiet [of e2 "reads a" fl e' evs3]
    by simp
next
  case (wout e1 evs1 e2 evs2 e3 evs3 evs4)
  then show ?thesis
    using try_reflink_quiet [of e a FallThrough e1 evs1]
      try_sendfile_quiet [of e1 a FallThrough e2 evs2]
      read_loop_quiet [of e2 "reads a" FallThrough e3 evs3]
      write_out_quiet [of e3 a fl e' evs4]
    by simp
qed


subsection \<open>Starting\<close>




subsection \<open>Runs\<close>

lemma run_events_Nil: "run_events e [] = []"
  by (simp add: run_events_def)

lemma run_events_step:
  "raw_export_process e a = Inr (rv, e', evs) \<Longrightarrow> run_events e (a # as) = evs @ run_events e' as"
  by (simp add: run_events_def)

lemma run_events_stop: "raw_export_process e a = Inl x \<Longrightarrow> run_events e (a # as) = []"
  by (simp add: run_events_def)

lemma run_states_Nil: "run_states e [] = [e]"
  by (simp add: run_states_def)

lemma run_states_step:
  "raw_export_process e a = Inr (rv, e', evs) \<Longrightarrow> run_states e (a # as) = e # run_states e' as"
  by (simp add: run_states_def)

lemma run_states_stop: "raw_export_process e a = Inl x \<Longrightarrow> run_states e (a # as) = [e]"
  by (simp add: run_states_def)

lemma try_reflink_latch:
  "try_reflink e a = Inr (fl, e', evs) \<Longrightarrow>
     (tried_reflink e \<longrightarrow> tried_reflink e' \<and> evs = []) \<and>
     tried_sendfile e' = tried_sendfile e \<and> \<not> list_ex attempts_sendfile evs \<and>
     (fl = FallThrough \<longrightarrow> compress_type e \<noteq> IMPORT_COMPRESS_UNCOMPRESSED \<or> tried_reflink e')"
  by (auto simp: try_reflink_def split: if_splits)

lemma try_sendfile_latch:
  "try_sendfile e a = Inr (fl, e', evs) \<Longrightarrow>
     (tried_sendfile e \<longrightarrow> tried_sendfile e' \<and> evs = []) \<and>
     tried_reflink e' = tried_reflink e \<and> \<not> list_ex attempts_reflink evs \<and>
     (tried_sendfile e' \<longrightarrow> fl = FallThrough) \<and>
     (l < 0 \<and> EvSendfile l EAGAIN \<in> set evs \<longrightarrow> fl = Return0) \<and>
     (\<not> tried_sendfile e \<and> compress_type e = IMPORT_COMPRESS_UNCOMPRESSED \<longrightarrow>
        EvSendfile (sendfile_l a) (sendfile_errno a) \<in> set evs)"
  by (auto simp: try_sendfile_def Let_def report_progress_eq split: if_splits)

lemma read_loop_latch:
  "read_loop e xs = Inr (fl, e', evs) \<Longrightarrow>
     tried_reflink e' = tried_reflink e \<and> tried_sendfile e' = tried_sendfile e \<and>
     \<not> list_ex attempts_reflink evs \<and> \<not> list_ex attempts_sendfile evs \<and>
     EvSendfile l en \<notin> set evs"
proof -
  assume a: "read_loop e xs = Inr (fl, e', evs)"
  have "list_all loop_event evs \<Longrightarrow>
      \<not> list_ex attempts_reflink evs \<and> \<not> list_ex attempts_sendfile evs \<and> EvSendfile l en \<notin> set evs"
    by (induction evs) (auto elim: loop_event.elims)
  with read_loop_facts [OF a] show ?thesis by blast
qed

lemma write_out_latch:
  "write_out e a = Inr (fl, e', evs) \<Longrightarrow>
     tried_reflink e' = tried_reflink e \<and> tried_sendfile e' = tried_sendfile e \<and>
     \<not> list_ex attempts_reflink evs \<and> \<not> list_ex attempts_sendfile evs \<and>
     EvSendfile l en \<notin> set evs"
  by (auto simp: write_out_def Let_def report_progress_eq split: if_splits)

lemma process_body_latch:
  assumes "process_body e a = Inr (fl, e', evs)"
  shows "(tried_reflink e \<longrightarrow> tried_reflink e' \<and> \<not> list_ex attempts_reflink evs) \<and>
         (tried_sendfile e \<longrightarrow> tried_sendfile e' \<and> \<not> list_ex attempts_sendfile evs) \<and>
         (l < 0 \<and> EvSendfile l EAGAIN \<in> set evs \<longrightarrow>
            \<not> tried_sendfile e' \<and> fl = Return0 \<and> tried_reflink e' \<and>
            compress_type e' = IMPORT_COMPRESS_UNCOMPRESSED)"
  using assms
proof (cases rule: process_body_cases)
  case reflink
  then show ?thesis by (auto simp: try_reflink_def split: if_splits)
next
  case (sendfile e1 evs1 evs2)
  have c: "compress_type e1 = compress_type e" "compress_type e' = compress_type e1"
    using sendfile try_reflink_frame [of e a FallThrough e1 evs1]
      try_sendfile_frame [of e1 a fl e' evs2] by (simp_all add: frame_def)
  have x: "l < 0 \<and> EvSendfile l EAGAIN \<in> set evs2 \<longrightarrow>
      \<not> tried_sendfile e' \<and> \<not> tried_sendfile e1 \<and> compress_type e1 = IMPORT_COMPRESS_UNCOMPRESSED"
    using sendfile(2) by (auto simp: try_sendfile_def Let_def report_progress_eq split: if_splits)
  show ?thesis
    using sendfile c x try_reflink_latch [of e a FallThrough e1 evs1]
      try_sendfile_latch [of e1 a fl e' evs2 l]
    by (auto simp: list_ex_iff)
next
  case (rloop e1 evs1 e2 evs2 evs3)
  show ?thesis
    using rloop try_reflink_latch [of e a FallThrough e1 evs1]
      try_sendfile_latch [of e1 a FallThrough e2 evs2 l]
      read_loop_latch [of e2 "reads a" fl e' evs3 l EAGAIN]
    by (auto simp: list_ex_iff)
next
  case (wout e1 evs1 e2 evs2 e3 evs3 evs4)
  show ?thesis
    using wout try_reflink_latch [of e a FallThrough e1 evs1]
      try_sendfile_latch [of e1 a FallThrough e2 evs2 l]
      read_loop_latch [of e2 "reads a" FallThrough e3 evs3 l EAGAIN]
      write_out_latch [of e3 a fl e' evs4 l EAGAIN]
    by (auto simp: list_ex_iff)
qed

lemma finish_attempts_nothing:
  "\<not> list_ex attempts_reflink (finish e r) \<and> \<not> list_ex attempts_sendfile (finish e r) \<and>
   EvSendfile l en \<notin> set (finish e r)"
  by (simp add: finish_def)

lemma process_latch:
  assumes "raw_export_process e a = Inr (rv, e', evs)"
  shows "(tried_reflink e \<longrightarrow> tried_reflink e' \<and> \<not> list_ex attempts_reflink evs) \<and>
         (tried_sendfile e \<longrightarrow> tried_sendfile e' \<and> \<not> list_ex attempts_sendfile evs) \<and>
         (l < 0 \<and> EvSendfile l EAGAIN \<in> set evs \<longrightarrow>
            \<not> tried_sendfile e' \<and> tried_reflink e' \<and>
            compress_type e' = IMPORT_COMPRESS_UNCOMPRESSED)"
proof -
  from assms obtain fl evs1 where
    body: "process_body e a = Inr (fl, e', evs1)" and
    evs: "evs = evs1 @ (case fl of GotoFinish r \<Rightarrow> finish e' r | _ \<Rightarrow> [])"
    by (auto simp: raw_export_process_Inr)
  note b = process_body_latch [OF body, of l]
  show ?thesis
  proof (cases fl)
    case (GotoFinish r)
    with b evs finish_attempts_nothing [of e' r l EAGAIN] show ?thesis by auto
  qed (use b evs in auto)
qed

lemma retry_after_would_block:
  assumes "\<not> tried_sendfile e" "tried_reflink e" "compress_type e = IMPORT_COMPRESS_UNCOMPRESSED"
    and "raw_export_process e a = Inr (rv, e', evs)"
  shows "EvSendfile (sendfile_l a) (sendfile_errno a) \<in> set evs"
proof -
  from assms(4) obtain fl evs1 where
    body: "process_body e a = Inr (fl, e', evs1)" and
    evs: "evs = evs1 @ (case fl of GotoFinish r \<Rightarrow> finish e' r | _ \<Rightarrow> [])"
    by (auto simp: raw_export_process_Inr)
  have r: "try_reflink e a = Inr (FallThrough, e, [])"
    using assms(2) by (simp add: try_reflink_def)
  have "EvSendfile (sendfile_l a) (sendfile_errno a) \<in> set evs1"
    using body
  proof (cases rule: process_body_cases)
    case reflink
    with r show ?thesis by simp
  next
    case (sendfile e1 evs1 evs2)
    with r assms(1,3) try_sendfile_latch [of e a fl e' evs2] show ?thesis by simp
  next
    case (rloop e1 evs1 e2 evs2 evs3)
    with r assms(1,3) try_sendfile_latch [of e a FallThrough e2 evs2] show ?thesis by simp
  next
    case (wout e1 evs1 e2 evs2 e3 evs3 evs4)
    with r assms(1,3) try_sendfile_latch [of e a FallThrough e2 evs2] show ?thesis by simp
  qed
  with evs show ?thesis by simp
qed

lemma run_keeps_reflink_latch:
  "tried_reflink e \<Longrightarrow>
     (\<forall>s \<in> set (run_states e as). tried_reflink s) \<and> \<not> list_ex attempts_reflink (run_events e as)"
proof (induction as arbitrary: e)
  case Nil
  then show ?case by (simp add: run_states_Nil run_events_Nil)
next
  case (Cons a as)
  show ?case
  proof (cases "raw_export_process e a")
    case (Inl x)
    with Cons.prems show ?thesis by (simp add: run_states_stop run_events_stop)
  next
    case (Inr t)
    obtain rv e' evs where t: "t = (rv, e', evs)" by (cases t)
    with Inr have st: "raw_export_process e a = Inr (rv, e', evs)" by simp
    from process_latch [OF st, of 0] Cons.prems
    have "tried_reflink e'" "\<not> list_ex attempts_reflink evs" by simp_all
    with Cons.IH [of e'] Cons.prems show ?thesis
      by (simp add: run_states_step [OF st] run_events_step [OF st])
  qed
qed

lemma run_keeps_sendfile_latch:
  "tried_sendfile e \<Longrightarrow>
     (\<forall>s \<in> set (run_states e as). tried_sendfile s) \<and> \<not> list_ex attempts_sendfile (run_events e as)"
proof (induction as arbitrary: e)
  case Nil
  then show ?case by (simp add: run_states_Nil run_events_Nil)
next
  case (Cons a as)
  show ?case
  proof (cases "raw_export_process e a")
    case (Inl x)
    with Cons.prems show ?thesis by (simp add: run_states_stop run_events_stop)
  next
    case (Inr t)
    obtain rv e' evs where t: "t = (rv, e', evs)" by (cases t)
    with Inr have st: "raw_export_process e a = Inr (rv, e', evs)" by simp
    from process_latch [OF st, of 0] Cons.prems
    have "tried_sendfile e'" "\<not> list_ex attempts_sendfile evs" by simp_all
    with Cons.IH [of e'] Cons.prems show ?thesis
      by (simp add: run_states_step [OF st] run_events_step [OF st])
  qed
qed

lemma run_states_hd: "\<exists>ss. run_states e as = e # ss"
  by (simp add: run_states_def)

lemma filter_finish: "filter is_finish (finish e r) = [if on_finished e then EvOnFinished r else EvEventExit r]"
  by (simp add: finish_def)

lemma no_finish_filter: "\<not> list_ex is_finish evs \<Longrightarrow> filter is_finish evs = []"
  by (induction evs) auto

lemma reads_file_consumed: "reads_file left evs \<Longrightarrow> consumed evs \<le> left"
  by (induction left evs rule: reads_file.induct) (auto split: if_splits)

lemma reads_file_exhausted:
  "reads_file left evs \<Longrightarrow> list_ex zero_transfer evs \<Longrightarrow> consumed evs = left"
proof (induction left evs rule: reads_file.induct)
  case (2 left l en evs)
  then show ?case
    using reads_file_consumed [of "left - nat l" evs] by (auto split: if_splits)
next
  case (3 left l en evs)
  then show ?case
    using reads_file_consumed [of "left - nat l" evs] by (auto split: if_splits)
qed auto

lemma try_sendfile_counter:
  "try_sendfile e a = Inr (fl, e', evs) \<Longrightarrow>
     written_uncompressed e' = written_uncompressed e + word_of_nat (consumed evs) \<and>
     eof e' = eof e \<and>
     (\<forall>r. fl = GotoFinish r \<longrightarrow> r = 0 \<and> list_ex zero_transfer evs)"
  by (auto simp: try_sendfile_def Let_def report_progress_eq split: if_splits)

lemma read_loop_counter:
  "read_loop e xs = Inr (fl, e', evs) \<Longrightarrow>
     written_uncompressed e' = written_uncompressed e + word_of_nat (consumed evs) \<and>
     (eof e' \<longrightarrow> eof e \<or> list_ex zero_transfer evs) \<and>
     (fl = GotoFinish 0 \<longrightarrow> eof e \<or> list_ex zero_transfer evs \<or> \<not> list_all errno_ok evs)"
proof (induction xs arbitrary: e fl e' evs)
  case Nil
  then show ?case by (auto split: if_splits)
next
  case (Cons x xs)
  show ?case
  proof (cases "buffer e \<noteq> [] \<or> eof e \<or> rd_l x < 0 \<or> enc_r x < 0")
    case True
    with Cons.prems show ?thesis
      by (auto simp: Let_def log_error_errno_def split: if_splits)
  next
    case False
    let ?e1 = "if rd_l x = 0 then e\<lparr>eof := True, buffer := buffer e @ enc_out x\<rparr>
               else e\<lparr>written_uncompressed := written_uncompressed e + word_of_int (rd_l x),
                      buffer := buffer e @ enc_out x\<rparr>"
    let ?enc = "if rd_l x = 0 then EvCompressFinish (enc_r x) else EvCompress (rd_l x) (enc_r x)"
    from False Cons.prems obtain evs2 where
      rec: "read_loop ?e1 xs = Inr (fl, e', evs2)" and
      evs: "evs = [EvRead (rd_l x) (rd_errno x), ?enc] @ evs2"
      by (auto simp: Let_def and_then_Inr split: if_splits)
    note ih = Cons.IH [OF rec]
    show ?thesis
    proof (cases "rd_l x = 0")
      case True
      with ih evs False show ?thesis by auto
    next
      case nz: False
      with False have pos: "0 \<le> rd_l x" by simp
      have "written_uncompressed e' =
          written_uncompressed e + word_of_int (rd_l x) + word_of_nat (consumed evs2)"
        using ih nz by simp
      with ih evs nz pos False show ?thesis by (auto simp: add.assoc)
    qed
  qed
qed

lemma write_out_counter:
  "write_out e a = Inr (fl, e', evs) \<Longrightarrow>
     written_uncompressed e' = written_uncompressed e \<and> consumed evs = 0 \<and> eof e' = eof e \<and>
     \<not> list_ex zero_transfer evs \<and> (fl = GotoFinish 0 \<longrightarrow> \<not> list_all errno_ok evs)"
  by (auto simp: write_out_def Let_def report_progress_eq log_error_errno_def split: if_splits)

lemma try_reflink_counter:
  "try_reflink e a = Inr (fl, e', evs) \<Longrightarrow>
     written_uncompressed e' = written_uncompressed e \<and> consumed evs = 0 \<and> eof e' = eof e \<and>
     (\<forall>r. fl = GotoFinish r \<longrightarrow> list_ex reflink_succeeded evs)"
  by (auto simp: try_reflink_def split: if_splits)

lemma process_body_counter:
  assumes "process_body e a = Inr (fl, e', evs)"
  shows "written_uncompressed e' = written_uncompressed e + word_of_nat (consumed evs) \<and>
         (eof e' \<longrightarrow> eof e \<or> list_ex zero_transfer evs) \<and>
         (fl = GotoFinish 0 \<longrightarrow>
            list_ex reflink_succeeded evs \<or> list_ex zero_transfer evs \<or> eof e \<or>
            \<not> list_all errno_ok evs)"
  using assms
proof (cases rule: process_body_cases)
  case reflink
  with try_reflink_counter [of e a fl e' evs] show ?thesis by auto
next
  case (sendfile e1 evs1 evs2)
  with try_reflink_counter [of e a FallThrough e1 evs1] try_sendfile_counter [of e1 a fl e' evs2]
  show ?thesis by (auto simp: consumed_append)
next
  case (rloop e1 evs1 e2 evs2 evs3)
  with try_reflink_counter [of e a FallThrough e1 evs1]
    try_sendfile_counter [of e1 a FallThrough e2 evs2]
    read_loop_counter [of e2 "reads a" fl e' evs3]
  show ?thesis by (auto simp: consumed_append add.assoc)
next
  case (wout e1 evs1 e2 evs2 e3 evs3 evs4)
  with try_reflink_counter [of e a FallThrough e1 evs1]
    try_sendfile_counter [of e1 a FallThrough e2 evs2]
    read_loop_counter [of e2 "reads a" FallThrough e3 evs3]
    write_out_counter [of e3 a fl e' evs4]
  show ?thesis by (auto simp: consumed_append add.assoc)
qed

lemma finish_plain:
  "consumed (finish e r) = 0 \<and> \<not> list_ex zero_transfer (finish e r) \<and>
   \<not> list_ex reflink_succeeded (finish e r) \<and> list_all errno_ok (finish e r) \<and>
   notified (finish e r) = [] \<and> (list_ex is_success (finish e r) \<longleftrightarrow> r = 0)"
  by (simp add: finish_def)

lemma no_finish_no_success: "\<not> list_ex is_finish evs \<Longrightarrow> \<not> list_ex is_success evs"
  by (induction evs) (auto elim: is_success.elims)

lemma process_counter:
  assumes "raw_export_process e a = Inr (rv, e', evs)"
  shows "written_uncompressed e' = written_uncompressed e + word_of_nat (consumed evs) \<and>
         (eof e' \<longrightarrow> eof e \<or> list_ex zero_transfer evs) \<and>
         (list_ex is_success evs \<longrightarrow>
            list_ex reflink_succeeded evs \<or> list_ex zero_transfer evs \<or> eof e \<or>
            \<not> list_all errno_ok evs)"
proof -
  from assms obtain fl evs1 where
    body: "process_body e a = Inr (fl, e', evs1)" and
    evs: "evs = evs1 @ (case fl of GotoFinish r \<Rightarrow> finish e' r | _ \<Rightarrow> [])"
    by (auto simp: raw_export_process_Inr)
  note c = process_body_counter [OF body]
  note ns = no_finish_no_success [OF process_body_no_finish [OF body]]
  show ?thesis
  proof (cases fl)
    case (GotoFinish r)
    with c ns evs finish_plain [of e' r] show ?thesis
      by (auto simp: consumed_append)
  qed (use c ns evs in auto)
qed

lemma run_final_Nil: "run_final e [] = e"
  by (simp add: run_final_def run_states_def)

lemma run_final_step:
  "raw_export_process e a = Inr (rv, e', evs) \<Longrightarrow> run_final e (a # as) = run_final e' as"
  by (simp add: run_final_def run_states_def)

lemma run_final_stop: "raw_export_process e a = Inl x \<Longrightarrow> run_final e (a # as) = e"
  by (simp add: run_final_def run_states_def)

lemma run_counter:
  "written_uncompressed (run_final e as)
     = written_uncompressed e + word_of_nat (consumed (run_events e as)) \<and>
   (eof (run_final e as) \<longrightarrow> eof e \<or> list_ex zero_transfer (run_events e as)) \<and>
   (list_ex is_success (run_events e as) \<longrightarrow>
      list_ex reflink_succeeded (run_events e as) \<or> list_ex zero_transfer (run_events e as) \<or>
      eof e \<or> \<not> list_all errno_ok (run_events e as))"
proof (induction as arbitrary: e)
  case Nil
  show ?case by (simp add: run_final_Nil run_events_Nil)
next
  case (Cons a as)
  show ?case
  proof (cases "raw_export_process e a")
    case (Inl x)
    then show ?thesis by (simp add: run_final_stop run_events_stop)
  next
    case (Inr t)
    obtain rv e' evs where t: "t = (rv, e', evs)" by (cases t)
    with Inr have st: "raw_export_process e a = Inr (rv, e', evs)" by simp
    note p = process_counter [OF st]
    note ih = Cons.IH [of e']
    have 1: "written_uncompressed (run_final e (a # as))
        = written_uncompressed e + word_of_nat (consumed (run_events e (a # as)))"
      using p ih by (simp add: run_final_step [OF st] run_events_step [OF st] consumed_append)
    have 2: "eof (run_final e (a # as)) \<longrightarrow> eof e \<or> list_ex zero_transfer (run_events e (a # as))"
      using p ih by (auto simp: run_final_step [OF st] run_events_step [OF st])
    have 3: "list_ex is_success (run_events e (a # as)) \<longrightarrow>
        list_ex reflink_succeeded (run_events e (a # as)) \<or>
        list_ex zero_transfer (run_events e (a # as)) \<or> eof e \<or>
        \<not> list_all errno_ok (run_events e (a # as))"
      using p ih by (auto simp: run_events_step [OF st])
    from 1 2 3 show ?thesis by blast
  qed
qed

lemma try_sendfile_notify:
  "try_sendfile e a = Inr (fl, e', evs) \<Longrightarrow>
     ((notified evs = [] \<and> last_percent e' = last_percent e) \<or>
      (notified evs = [percent_now e'] \<and> last_percent e' = percent_now e' \<and>
       percent_now e' \<noteq> last_percent e)) \<and>
     (fl = FallThrough \<longrightarrow> notified evs = [] \<and> last_percent e' = last_percent e)"
  by (auto simp: try_sendfile_def Let_def report_progress_eq split: if_splits)

lemma write_out_notify:
  "write_out e a = Inr (fl, e', evs) \<Longrightarrow>
     (notified evs = [] \<and> last_percent e' = last_percent e) \<or>
     (notified evs = [percent_now e'] \<and> last_percent e' = percent_now e' \<and>
      percent_now e' \<noteq> last_percent e)"
  by (auto simp: write_out_def Let_def report_progress_eq split: if_splits)

lemma process_body_notify:
  assumes "process_body e a = Inr (fl, e', evs)"
  shows "(notified evs = [] \<and> last_percent e' = last_percent e) \<or>
         (notified evs = [percent_now e'] \<and> last_percent e' = percent_now e' \<and>
          percent_now e' \<noteq> last_percent e)"
  using assms
proof (cases rule: process_body_cases)
  case reflink
  with try_reflink_quiet [of e a fl e' evs] try_reflink_facts [of e a fl e' evs]
  show ?thesis by simp
next
  case (sendfile e1 evs1 evs2)
  with try_reflink_quiet [of e a FallThrough e1 evs1] try_reflink_facts [of e a FallThrough e1 evs1]
    try_sendfile_notify [of e1 a fl e' evs2]
  show ?thesis by (simp add: notified_append)
next
  case (rloop e1 evs1 e2 evs2 evs3)
  with try_reflink_quiet [of e a FallThrough e1 evs1] try_reflink_facts [of e a FallThrough e1 evs1]
    try_sendfile_notify [of e1 a FallThrough e2 evs2]
    read_loop_quiet [of e2 "reads a" fl e' evs3] read_loop_facts [of e2 "reads a" fl e' evs3]
  show ?thesis by (simp add: notified_append)
next
  case (wout e1 evs1 e2 evs2 e3 evs3 evs4)
  with try_reflink_quiet [of e a FallThrough e1 evs1] try_reflink_facts [of e a FallThrough e1 evs1]
    try_sendfile_notify [of e1 a FallThrough e2 evs2]
    read_loop_quiet [of e2 "reads a" FallThrough e3 evs3]
    read_loop_facts [of e2 "reads a" FallThrough e3 evs3]
    write_out_notify [of e3 a fl e' evs4]
  show ?thesis by (simp add: notified_append)
qed

lemma process_notify:
  assumes "raw_export_process e a = Inr (rv, e', evs)"
  shows "(notified evs = [] \<and> last_percent e' = last_percent e) \<or>
         (notified evs = [percent_now e'] \<and> last_percent e' = percent_now e' \<and>
          percent_now e' \<noteq> last_percent e)"
proof -
  from assms obtain fl evs1 where
    body: "process_body e a = Inr (fl, e', evs1)" and
    evs: "evs = evs1 @ (case fl of GotoFinish r \<Rightarrow> finish e' r | _ \<Rightarrow> [])"
    by (auto simp: raw_export_process_Inr)
  have "notified evs = notified evs1"
    using evs finish_plain by (cases fl) (simp_all add: notified_append)
  with process_body_notify [OF body] show ?thesis by simp
qed

lemma notified_bounded: "\<forall>p \<in> set (notified (run_events e as)). p \<le> 100"
proof (induction as arbitrary: e)
  case Nil
  show ?case by (simp add: run_events_Nil)
next
  case (Cons a as)
  show ?case
  proof (cases "raw_export_process e a")
    case (Inl x)
    then show ?thesis by (simp add: run_events_stop)
  next
    case (Inr t)
    obtain rv e' evs where t: "t = (rv, e', evs)" by (cases t)
    with Inr have st: "raw_export_process e a = Inr (rv, e', evs)" by simp
    from process_notify [OF st] percent_now_le [of e'] Cons.IH [of e'] show ?thesis
      by (auto simp: run_events_step [OF st] notified_append)
  qed
qed

lemma run_notified_increasing:
  assumes "unat (st_size e) * 100 < 2 ^ 64"
    and "unat (written_uncompressed e) + consumed (run_events e as) < 2 ^ 64"
    and "last_percent e = - 1 \<or> last_percent e \<le> percent_now e"
  shows "sorted_wrt (<) (notified (run_events e as)) \<and>
         (\<forall>p \<in> set (notified (run_events e as)). last_percent e = - 1 \<or> last_percent e < p)"
  using assms
proof (induction as arbitrary: e)
  case Nil
  show ?case by (simp add: run_events_Nil)
next
  case (Cons a as)
  show ?case
  proof (cases "raw_export_process e a")
    case (Inl x)
    then show ?thesis by (simp add: run_events_stop)
  next
    case (Inr t)
    obtain rv e' evs where t: "t = (rv, e', evs)" by (cases t)
    with Inr have st: "raw_export_process e a = Inr (rv, e', evs)" by simp
    have ev: "run_events e (a # as) = evs @ run_events e' as" by (rule run_events_step [OF st])
    have sz: "st_size e' = st_size e"
      using raw_export_process_frame [OF st] by (simp add: frame_def)
    have cnt: "written_uncompressed e' = written_uncompressed e + word_of_nat (consumed evs)"
      using process_counter [OF st] by simp
    have tot: "unat (written_uncompressed e) + consumed evs + consumed (run_events e' as) < 2 ^ 64"
      using Cons.prems(2) by (simp add: ev consumed_append)
    then have small: "unat (written_uncompressed e) + consumed evs < 2 ^ 64" by simp
    have "unat (written_uncompressed e') = (unat (written_uncompressed e) + consumed evs) mod 2 ^ 64"
      by (simp add: cnt unat_word_ariths unat_of_nat take_bit_eq_mod mod_simps)
    with small have u: "unat (written_uncompressed e') = unat (written_uncompressed e) + consumed evs"
      by simp
    have mono: "percent_now e \<le> percent_now e'"
      using wrapped_percent_mono [of "unat (st_size e)" "unat (written_uncompressed e)"
          "unat (written_uncompressed e')"] Cons.prems(1) u sz
      by (simp add: word_le_nat_alt unat_percent_now)
    have p2: "unat (written_uncompressed e') + consumed (run_events e' as) < 2 ^ 64"
      using tot u by simp
    have p1: "unat (st_size e') * 100 < 2 ^ 64" using Cons.prems(1) sz by simp
    from process_notify [OF st] show ?thesis
    proof
      assume q: "notified evs = [] \<and> last_percent e' = last_percent e"
      then have p3: "last_percent e' = - 1 \<or> last_percent e' \<le> percent_now e'"
        using Cons.prems(3) mono by auto
      from Cons.IH [OF p1 p2 p3] q show ?thesis by (simp add: ev notified_append)
    next
      assume q: "notified evs = [percent_now e'] \<and> last_percent e' = percent_now e' \<and>
          percent_now e' \<noteq> last_percent e"
      then have p3: "last_percent e' = - 1 \<or> last_percent e' \<le> percent_now e'" by simp
      note ih = Cons.IH [OF p1 p2 p3]
      have above: "\<forall>p \<in> set (notified (run_events e' as)). percent_now e' < p"
        using ih q percent_now_not_sentinel [of e'] by auto
      have first: "last_percent e = - 1 \<or> last_percent e < percent_now e'"
        using Cons.prems(3) mono q by auto
      have rest: "\<forall>p \<in> set (notified (run_events e' as)). last_percent e = - 1 \<or> last_percent e < p"
        using above first by auto
      from ih q above first rest show ?thesis by (auto simp: ev notified_append)
    qed
  qed
qed

lemma run_append:
  "length (run e as) = length as \<Longrightarrow>
     run_events e (as @ bs) = run_events e as @ run_events (run_final e as) bs \<and>
     run_final e (as @ bs) = run_final (run_final e as) bs"
proof (induction as arbitrary: e)
  case Nil
  show ?case by (simp add: run_events_Nil run_final_Nil)
next
  case (Cons a as)
  show ?case
  proof (cases "raw_export_process e a")
    case (Inl x)
    with Cons.prems show ?thesis by simp
  next
    case (Inr t)
    obtain rv e' evs where t: "t = (rv, e', evs)" by (cases t)
    with Inr have st: "raw_export_process e a = Inr (rv, e', evs)" by simp
    with Cons.prems have "length (run e' as) = length as" by simp
    from Cons.IH [OF this] show ?thesis
      using run_events_step [OF st, of "as @ bs"] run_events_step [OF st, of as]
        run_final_step [OF st, of "as @ bs"] run_final_step [OF st, of as]
      by simp
  qed
qed

subsection \<open>The outcome of a step\<close>

lemma find_loop_ends_None: "find loop_ends xs = None \<longleftrightarrow> \<not> list_ex loop_ends xs"
  by (induction xs) auto

lemma read_loop_pending: "buffer e \<noteq> [] \<Longrightarrow> read_loop e xs = Inr (FallThrough, e, [])"
  by (cases xs) simp_all

lemma read_loop_eof: "buffer e = [] \<Longrightarrow> eof e \<Longrightarrow> read_loop e xs = Inr (GotoFinish 0, e, [])"
  by (cases xs) simp_all

lemma read_loop_starved:
  "buffer e = [] \<Longrightarrow> \<not> eof e \<Longrightarrow> find loop_ends xs = None \<Longrightarrow> read_loop e xs = Inl OutOfAnswers"
proof (induction xs arbitrary: e)
  case Nil
  then show ?case by simp
next
  case (Cons x xs)
  from Cons.prems(3) have nl: "\<not> loop_ends x" and f: "find loop_ends xs = None"
    by (simp_all split: if_splits)
  from nl have x: "0 < rd_l x" "0 \<le> enc_r x" "enc_out x = []"
    by (auto simp: loop_ends_def)
  let ?e1 = "e\<lparr>written_uncompressed := written_uncompressed e + word_of_int (rd_l x), buffer := []\<rparr>"
  have "read_loop ?e1 xs = Inl OutOfAnswers"
    using Cons.prems(1,2) f by (intro Cons.IH) simp_all
  with Cons.prems(1,2) x show ?case by (simp add: Let_def and_then_def)
qed

lemma read_loop_decisive:
  "buffer e = [] \<Longrightarrow> \<not> eof e \<Longrightarrow> find loop_ends xs = Some x \<Longrightarrow>
   \<exists>e1 evs. read_loop e xs =
       Inr (if rd_l x < 0 then GotoFinish (log_error_errno (rd_errno x))
            else if enc_r x < 0 then GotoFinish (log_error_errno (enc_r x))
            else if enc_out x \<noteq> [] then FallThrough else GotoFinish 0,
            e1,
            evs @ EvRead (rd_l x) (rd_errno x) #
              (if rd_l x < 0 then [EvLogError (rd_errno x)]
               else (if rd_l x = 0 then EvCompressFinish (enc_r x) else EvCompress (rd_l x) (enc_r x)) #
                    (if enc_r x < 0 then [EvLogError (enc_r x)] else []))) \<and>
     buffer e1 = (if rd_l x < 0 then [] else enc_out x) \<and>
     on_finished e1 = on_finished e \<and> list_all loop_event evs"
proof (induction xs arbitrary: e)
  case Nil
  then show ?case by simp
next
  case (Cons y ys)
  show ?case
  proof (cases "loop_ends y")
    case True
    with Cons.prems(3) have xy: "y = x" by simp
    from True xy have le: "rd_l x \<le> 0 \<or> enc_r x < 0 \<or> enc_out x \<noteq> []" by (simp add: loop_ends_def)
    show ?thesis
      using Cons.prems(1,2) le unfolding xy
      by (intro exI [of _ "if rd_l x < 0 then e
            else if rd_l x = 0 then e\<lparr>eof := True, buffer := enc_out x\<rparr>
            else e\<lparr>written_uncompressed := written_uncompressed e + word_of_int (rd_l x),
                   buffer := enc_out x\<rparr>"] exI [of _ "[]"])
         (auto simp: Let_def and_then_def read_loop_pending read_loop_eof)
  next
    case False
    then have y: "0 < rd_l y" "0 \<le> enc_r y" "enc_out y = []" by (auto simp: loop_ends_def)
    from False Cons.prems(3) have f: "find loop_ends ys = Some x" by simp
    let ?e1 = "e\<lparr>written_uncompressed := written_uncompressed e + word_of_int (rd_l y), buffer := []\<rparr>"
    have "buffer ?e1 = []" "\<not> eof ?e1" using Cons.prems(1,2) by simp_all
    from Cons.IH [OF this f] obtain e1 evs where
      r: "read_loop ?e1 ys =
       Inr (if rd_l x < 0 then GotoFinish (log_error_errno (rd_errno x))
            else if enc_r x < 0 then GotoFinish (log_error_errno (enc_r x))
            else if enc_out x \<noteq> [] then FallThrough else GotoFinish 0,
            e1,
            evs @ EvRead (rd_l x) (rd_errno x) #
              (if rd_l x < 0 then [EvLogError (rd_errno x)]
               else (if rd_l x = 0 then EvCompressFinish (enc_r x) else EvCompress (rd_l x) (enc_r x)) #
                    (if enc_r x < 0 then [EvLogError (enc_r x)] else [])))" and
      k: "buffer e1 = (if rd_l x < 0 then [] else enc_out x)"
         "on_finished e1 = on_finished e" "list_all loop_event evs"
      by auto
    have "read_loop e (y # ys) =
        and_then (Inr (FallThrough, ?e1, [EvRead (rd_l y) (rd_errno y), EvCompress (rd_l y) (enc_r y)]))
          (\<lambda>e2. read_loop e2 ys)"
      using Cons.prems(1,2) y by (simp add: Let_def)
    with r k show ?thesis
      by (intro exI [of _ e1]
            exI [of _ "EvRead (rd_l y) (rd_errno y) # EvCompress (rd_l y) (enc_r y) # evs"])
         (simp add: and_then_def)
  qed
qed

lemma fast_paths_fall_through:
  assumes "reaches_loop e a"
  shows "\<exists>e2 evs2. and_then (try_reflink e a) (\<lambda>e1. try_sendfile e1 a) = Inr (FallThrough, e2, evs2) \<and>
     buffer e2 = buffer e \<and> eof e2 = eof e \<and> on_finished e2 = on_finished e \<and>
     \<not> list_ex is_finish evs2"
  using assms
  by (auto simp: reaches_loop_def and_then_def try_reflink_def try_sendfile_def Let_def)

lemma fast_paths_stop:
  assumes "\<not> reaches_loop e a"
  shows "\<exists>fl e2 evs2. and_then (try_reflink e a) (\<lambda>e1. try_sendfile e1 a) = Inr (fl, e2, evs2) \<and>
     fl = (if \<not> tried_reflink e \<and> 0 \<le> reflink_r a then GotoFinish 0
           else if sendfile_l a = 0 then GotoFinish 0 else Return0) \<and>
     on_finished e2 = on_finished e"
  using assms
  by (auto simp: reaches_loop_def and_then_def try_reflink_def try_sendfile_def Let_def
      report_progress_eq)

lemma and_then_stop: "fl \<noteq> FallThrough \<Longrightarrow> and_then (Inr (fl, e, evs)) f = Inr (fl, e, evs)"
  by (cases fl) (simp_all add: and_then_def)

lemma and_then_go:
  "and_then (Inr (FallThrough, e, evs)) f =
     (case f e of Inl x \<Rightarrow> Inl x | Inr (fl, e', evs') \<Rightarrow> Inr (fl, e', evs @ evs'))"
  by (simp add: and_then_def)

lemma body_stops_early:
  assumes "\<not> reaches_loop e a"
  shows "\<exists>e' evs. process_body e a =
       Inr (if \<not> tried_reflink e \<and> 0 \<le> reflink_r a then GotoFinish 0
            else if sendfile_l a = 0 then GotoFinish 0 else Return0, e', evs) \<and>
     on_finished e' = on_finished e"
proof -
  from fast_paths_stop [OF assms] obtain fl e2 evs2 where
    f: "and_then (try_reflink e a) (\<lambda>e1. try_sendfile e1 a) = Inr (fl, e2, evs2)"
       "fl = (if \<not> tried_reflink e \<and> 0 \<le> reflink_r a then GotoFinish 0
           else if sendfile_l a = 0 then GotoFinish 0 else Return0)"
       "on_finished e2 = on_finished e" by blast
  from f(2) have "fl \<noteq> FallThrough" by (simp split: if_splits)
  then have "process_body e a = Inr (fl, e2, evs2)"
    unfolding process_body_def f(1) by (simp add: and_then_stop)
  with f(2,3) show ?thesis by auto
qed

lemma report_progress_result:
  "\<exists>e' evs. raw_export_report_progress e ok = Inr (e', evs) \<and>
     on_finished e' = on_finished e \<and> \<not> list_ex is_finish evs"
  by (cases "percent_now e = last_percent e"; cases ok) (simp_all add: report_progress_eq)

lemma write_out_result:
  "\<exists>e' evs. write_out e a =
     (if write_l a < 0 then
        (if write_errno a = EAGAIN then
           Inr (Return0, e, [EvWrite (buffer e) (write_l a) (write_errno a)])
         else Inr (GotoFinish (log_error_errno (write_errno a)), e,
                [EvWrite (buffer e) (write_l a) (write_errno a), EvLogError (write_errno a)]))
      else if int (length (buffer e)) < write_l a then Inl AssertionFailed
      else Inr (Return0, e', EvWrite (buffer e) (write_l a) (write_errno a) # evs)) \<and>
     on_finished e' = on_finished e \<and> \<not> list_ex is_finish evs"
proof -
  let ?e1 = "e\<lparr>buffer := drop (nat (write_l a)) (buffer e),
                written_compressed := written_compressed e + word_of_int (write_l a)\<rparr>"
  from report_progress_result [of ?e1 "ratelimit_ok a"]
  obtain e' evs where r: "raw_export_report_progress ?e1 (ratelimit_ok a) = Inr (e', evs)"
    "on_finished e' = on_finished e" "\<not> list_ex is_finish evs"
    by auto
  then show ?thesis
    by (intro exI [of _ e'] exI [of _ evs]) (auto simp: write_out_def Let_def)
qed

lemma body_through_loop:
  assumes "reaches_loop e a"
  shows "\<exists>e2 evs2. buffer e2 = buffer e \<and> eof e2 = eof e \<and> on_finished e2 = on_finished e \<and>
     \<not> list_ex is_finish evs2 \<and>
     process_body e a =
       and_then (and_then (Inr (FallThrough, e2, evs2)) (\<lambda>e2. read_loop e2 (reads a)))
         (\<lambda>e3. write_out e3 a)"
proof -
  from fast_paths_fall_through [OF assms] obtain e2 evs2 where
    f: "and_then (try_reflink e a) (\<lambda>e1. try_sendfile e1 a) = Inr (FallThrough, e2, evs2)"
    and k: "buffer e2 = buffer e" "eof e2 = eof e" "on_finished e2 = on_finished e"
       "\<not> list_ex is_finish evs2" by blast
  have "process_body e a =
       and_then (and_then (Inr (FallThrough, e2, evs2)) (\<lambda>e2. read_loop e2 (reads a)))
         (\<lambda>e3. write_out e3 a)"
    unfolding process_body_def f ..
  with k show ?thesis by blast
qed

lemma body_at_write:
  assumes "reaches_write e a"
  shows "\<exists>e3 evs3 e' evs. process_body e a =
     (if write_l a < 0 then
        (if write_errno a = EAGAIN then
           Inr (Return0, e3, evs3 @ [EvWrite (write_handed e a) (write_l a) (write_errno a)])
         else Inr (GotoFinish (log_error_errno (write_errno a)), e3,
                evs3 @ [EvWrite (write_handed e a) (write_l a) (write_errno a),
                        EvLogError (write_errno a)]))
      else if int (length (write_handed e a)) < write_l a then Inl AssertionFailed
      else Inr (Return0, e', evs3 @ EvWrite (write_handed e a) (write_l a) (write_errno a) # evs)) \<and>
     on_finished e3 = on_finished e \<and> on_finished e' = on_finished e \<and>
     \<not> list_ex is_finish evs3 \<and> \<not> list_ex is_finish evs"
proof -
  from assms have rl: "reaches_loop e a" by (simp add: reaches_write_def)
  from body_through_loop [OF rl] obtain e2 evs2 where
    k: "buffer e2 = buffer e" "eof e2 = eof e" "on_finished e2 = on_finished e"
       "\<not> list_ex is_finish evs2" and
    b: "process_body e a =
       and_then (and_then (Inr (FallThrough, e2, evs2)) (\<lambda>e2. read_loop e2 (reads a)))
         (\<lambda>e3. write_out e3 a)" by blast
  have "\<exists>e3 evs3. read_loop e2 (reads a) = Inr (FallThrough, e3, evs3) \<and>
      buffer e3 = write_handed e a \<and> on_finished e3 = on_finished e \<and> \<not> list_ex is_finish evs3"
  proof (cases "buffer e = []")
    case False
    with k show ?thesis by (simp add: read_loop_pending write_handed_def)
  next
    case True
    with assms obtain x where x: "find loop_ends (reads a) = Some x"
      "0 \<le> rd_l x" "0 \<le> enc_r x" "enc_out x \<noteq> []" and ne: "\<not> eof e"
      by (auto simp: reaches_write_def split: option.splits)
    from True ne k have "buffer e2 = []" "\<not> eof e2" by simp_all
    from read_loop_decisive [OF this x(1)] x(2,3,4) obtain e1 evs where
      "read_loop e2 (reads a) = Inr (FallThrough, e1,
         evs @ [EvRead (rd_l x) (rd_errno x),
           if rd_l x = 0 then EvCompressFinish (enc_r x) else EvCompress (rd_l x) (enc_r x)])"
      "buffer e1 = enc_out x" "on_finished e1 = on_finished e2" "list_all loop_event evs"
      by auto
    with True x(1) k(3) loop_events_plain [of evs] show ?thesis
      by (auto simp: write_handed_def)
  qed
  then obtain e3 evs3 where
    l: "read_loop e2 (reads a) = Inr (FallThrough, e3, evs3)" and
    h: "buffer e3 = write_handed e a" "on_finished e3 = on_finished e" "\<not> list_ex is_finish evs3"
    by blast
  from write_out_result [of e3 a] obtain e' evs where
    w: "write_out e3 a =
     (if write_l a < 0 then
        (if write_errno a = EAGAIN then
           Inr (Return0, e3, [EvWrite (buffer e3) (write_l a) (write_errno a)])
         else Inr (GotoFinish (log_error_errno (write_errno a)), e3,
                [EvWrite (buffer e3) (write_l a) (write_errno a), EvLogError (write_errno a)]))
      else if int (length (buffer e3)) < write_l a then Inl AssertionFailed
      else Inr (Return0, e', EvWrite (buffer e3) (write_l a) (write_errno a) # evs))"
     "on_finished e' = on_finished e3" "\<not> list_ex is_finish evs" by blast
  have "process_body e a =
     (if write_l a < 0 then
        (if write_errno a = EAGAIN then
           Inr (Return0, e3, (evs2 @ evs3) @ [EvWrite (write_handed e a) (write_l a) (write_errno a)])
         else Inr (GotoFinish (log_error_errno (write_errno a)), e3,
                (evs2 @ evs3) @ [EvWrite (write_handed e a) (write_l a) (write_errno a),
                        EvLogError (write_errno a)]))
      else if int (length (write_handed e a)) < write_l a then Inl AssertionFailed
      else Inr (Return0, e', (evs2 @ evs3) @ EvWrite (write_handed e a) (write_l a) (write_errno a) # evs))"
    by (simp add: b and_then_go l w(1) h(1))
  with h w(2,3) k(4) show ?thesis
    by (intro exI [of _ e3] exI [of _ "evs2 @ evs3"] exI [of _ e'] exI [of _ evs]) simp
qed

lemma body_at_loop_end:
  assumes "reaches_loop e a" "buffer e = []" "\<not> eof e" "find loop_ends (reads a) = Some x"
    and "rd_l x < 0 \<or> enc_r x < 0 \<or> enc_out x = []"
  shows "\<exists>e' evs. process_body e a =
       Inr (GotoFinish (if rd_l x < 0 then log_error_errno (rd_errno x)
              else if enc_r x < 0 then log_error_errno (enc_r x) else 0),
            e',
            evs @ EvRead (rd_l x) (rd_errno x) #
              (if rd_l x < 0 then [EvLogError (rd_errno x)]
               else (if rd_l x = 0 then EvCompressFinish (enc_r x) else EvCompress (rd_l x) (enc_r x)) #
                    (if enc_r x < 0 then [EvLogError (enc_r x)] else []))) \<and>
     on_finished e' = on_finished e \<and> \<not> list_ex is_finish evs"
proof -
  from body_through_loop [OF assms(1)] obtain e2 evs2 where
    k: "buffer e2 = buffer e" "eof e2 = eof e" "on_finished e2 = on_finished e"
       "\<not> list_ex is_finish evs2" and
    b: "process_body e a =
       and_then (and_then (Inr (FallThrough, e2, evs2)) (\<lambda>e2. read_loop e2 (reads a)))
         (\<lambda>e3. write_out e3 a)" by blast
  let ?fl = "GotoFinish (if rd_l x < 0 then log_error_errno (rd_errno x)
              else if enc_r x < 0 then log_error_errno (enc_r x) else 0)"
  let ?tl = "EvRead (rd_l x) (rd_errno x) #
              (if rd_l x < 0 then [EvLogError (rd_errno x)]
               else (if rd_l x = 0 then EvCompressFinish (enc_r x) else EvCompress (rd_l x) (enc_r x)) #
                    (if enc_r x < 0 then [EvLogError (enc_r x)] else []))"
  from assms(2,3) k have "buffer e2 = []" "\<not> eof e2" by simp_all
  from read_loop_decisive [OF this assms(4)] assms(5) obtain e1 evs where
    l: "read_loop e2 (reads a) = Inr (?fl, e1, evs @ ?tl)" and
    h: "on_finished e1 = on_finished e2" "list_all loop_event evs"
    by auto
  have "process_body e a = Inr (?fl, e1, (evs2 @ evs) @ ?tl)"
    by (simp add: b and_then_go l and_then_stop)
  with h k loop_events_plain [of evs] show ?thesis
    by (intro exI [of _ e1] exI [of _ "evs2 @ evs"]) simp
qed

lemma body_at_eof:
  assumes "reaches_loop e a" "buffer e = []" "eof e"
  shows "\<exists>e' evs. process_body e a = Inr (GotoFinish 0, e', evs) \<and>
     on_finished e' = on_finished e \<and> \<not> list_ex is_finish evs"
proof -
  from body_through_loop [OF assms(1)] obtain e2 evs2 where
    k: "buffer e2 = buffer e" "eof e2 = eof e" "on_finished e2 = on_finished e"
       "\<not> list_ex is_finish evs2" and
    b: "process_body e a =
       and_then (and_then (Inr (FallThrough, e2, evs2)) (\<lambda>e2. read_loop e2 (reads a)))
         (\<lambda>e3. write_out e3 a)" by blast
  from assms(2,3) k have "read_loop e2 (reads a) = Inr (GotoFinish 0, e2, [])"
    by (simp add: read_loop_eof)
  then have "process_body e a = Inr (GotoFinish 0, e2, evs2)"
    by (simp add: b and_then_go and_then_stop)
  with k show ?thesis by blast
qed

lemma body_starved:
  assumes "starved e a"
  shows "process_body e a = Inl OutOfAnswers"
proof -
  from assms have rl: "reaches_loop e a" "buffer e = []" "\<not> eof e"
    "find loop_ends (reads a) = None"
    by (simp_all add: starved_def find_loop_ends_None)
  from body_through_loop [OF rl(1)] obtain e2 evs2 where
    k: "buffer e2 = buffer e" "eof e2 = eof e" and
    b: "process_body e a =
       and_then (and_then (Inr (FallThrough, e2, evs2)) (\<lambda>e2. read_loop e2 (reads a)))
         (\<lambda>e3. write_out e3 a)" by blast
  from rl k have "read_loop e2 (reads a) = Inl OutOfAnswers"
    by (intro read_loop_starved) simp_all
  then show ?thesis by (simp add: b and_then_go and_then_def)
qed

lemma body_overrun:
  assumes "write_overrun e a"
  shows "process_body e a = Inl AssertionFailed"
proof -
  from assms have rw: "reaches_write e a" and o: "int (length (write_handed e a)) < write_l a"
    by (simp_all add: write_overrun_def)
  from o have "\<not> write_l a < 0" by simp
  with body_at_write [OF rw] o show ?thesis by auto
qed

lemma terminal_outcome_in_loop:
  "reaches_loop e a \<Longrightarrow>
   terminal_outcome e a =
     (if buffer e \<noteq> [] then write_outcome a
      else if eof e then Some 0
      else
        (case find loop_ends (reads a) of
           None \<Rightarrow> None
         | Some x \<Rightarrow>
             if rd_l x < 0 then Some (log_error_errno (rd_errno x))
             else if enc_r x < 0 then Some (log_error_errno (enc_r x))
             else if enc_out x \<noteq> [] then write_outcome a
             else Some 0))"
  by (auto simp: terminal_outcome_def reaches_loop_def)

lemma terminal_outcome_at_write:
  "reaches_write e a \<Longrightarrow> terminal_outcome e a = write_outcome a"
  by (auto simp: reaches_write_def terminal_outcome_in_loop split: option.splits)

lemma body_returns:
  assumes "\<not> starved e a" "\<not> write_overrun e a"
  shows "\<exists>e' evs. process_body e a =
       Inr (case terminal_outcome e a of Some r \<Rightarrow> GotoFinish r | None \<Rightarrow> Return0, e', evs) \<and>
     on_finished e' = on_finished e"
proof (cases "reaches_loop e a")
  case False
  then have "terminal_outcome e a =
      (if \<not> tried_reflink e \<and> 0 \<le> reflink_r a then Some 0
       else if sendfile_l a = 0 then Some 0 else None)"
    by (auto simp: terminal_outcome_def reaches_loop_def)
  with body_stops_early [OF False] show ?thesis by auto
next
  case rl: True
  show ?thesis
  proof (cases "reaches_write e a")
    case True
    from assms(2) True have fits: "\<not> int (length (write_handed e a)) < write_l a"
      by (simp add: write_overrun_def)
    from body_at_write [OF True] fits terminal_outcome_at_write [OF True] show ?thesis
      by (auto simp: write_outcome_def)
  next
    case nw: False
    with rl have b: "buffer e = []" by (auto simp: reaches_write_def)
    show ?thesis
    proof (cases "eof e")
      case True
      with body_at_eof [OF rl b] terminal_outcome_in_loop [OF rl] b show ?thesis by auto
    next
      case False
      with assms(1) rl b obtain x where x: "find loop_ends (reads a) = Some x"
        by (auto simp: starved_def find_loop_ends_None [symmetric])
      with nw rl b False have c: "rd_l x < 0 \<or> enc_r x < 0 \<or> enc_out x = []"
        by (auto simp: reaches_write_def)
      from body_at_loop_end [OF rl b False x c] terminal_outcome_in_loop [OF rl] b False x c
      show ?thesis by auto
    qed
  qed
qed

lemma process_verdict:
  "(starved e a \<and> raw_export_process e a = Inl OutOfAnswers) \<or>
   (write_overrun e a \<and> raw_export_process e a = Inl AssertionFailed) \<or>
   (\<not> starved e a \<and> \<not> write_overrun e a \<and>
    (\<exists>e' evs. raw_export_process e a =
        Inr (0, e', evs @ (case terminal_outcome e a of Some r \<Rightarrow> finish e r | None \<Rightarrow> [])) \<and>
      \<not> list_ex is_finish evs))"
proof (cases "starved e a")
  case True
  with body_starved [OF True] show ?thesis by (simp add: raw_export_process_def)
next
  case ns: False
  show ?thesis
  proof (cases "write_overrun e a")
    case True
    with body_overrun [OF True] show ?thesis by (simp add: raw_export_process_def)
  next
    case False
    from body_returns [OF ns False] obtain e' evs where
      b: "process_body e a =
       Inr (case terminal_outcome e a of Some r \<Rightarrow> GotoFinish r | None \<Rightarrow> Return0, e', evs)"
      and f: "on_finished e' = on_finished e" by blast
    have nf: "\<not> list_ex is_finish evs" using process_body_no_finish [OF b] .
    have fe: "finish e' r = finish e r" for r using f by (simp add: finish_def)
    have "raw_export_process e a =
        Inr (0, e', evs @ (case terminal_outcome e a of Some r \<Rightarrow> finish e r | None \<Rightarrow> []))"
      using b fe by (cases "terminal_outcome e a") (simp_all add: raw_export_process_def)
    with ns False nf show ?thesis by blast
  qed
qed

subsection \<open>The latches, step by step\<close>

lemma no_attempts_filter:
  "\<not> list_ex attempts_reflink evs \<Longrightarrow> filter attempts_reflink evs = []"
  "\<not> list_ex attempts_sendfile evs \<Longrightarrow> filter attempts_sendfile evs = []"
  by (induction evs) auto

lemma try_reflink_exact:
  "try_reflink e a = Inr (fl, e1, evs1) \<Longrightarrow>
     tried_reflink e1 =
       (tried_reflink e \<or> compress_type e = IMPORT_COMPRESS_UNCOMPRESSED \<and> reflink_r a < 0) \<and>
     tried_sendfile e1 = tried_sendfile e \<and> compress_type e1 = compress_type e \<and>
     filter attempts_reflink evs1 =
       (if compress_type e = IMPORT_COMPRESS_UNCOMPRESSED \<and> \<not> tried_reflink e
        then [EvReflink (reflink_r a)] else []) \<and>
     filter attempts_sendfile evs1 = [] \<and>
     (fl = FallThrough) =
       (compress_type e = IMPORT_COMPRESS_UNCOMPRESSED \<longrightarrow> tried_reflink e \<or> reflink_r a < 0)"
  by (auto simp: try_reflink_def split: if_splits)

lemma try_sendfile_exact:
  "try_sendfile e a = Inr (fl, e1, evs1) \<Longrightarrow>
     tried_sendfile e1 =
       (tried_sendfile e \<or> compress_type e = IMPORT_COMPRESS_UNCOMPRESSED \<and>
          sendfile_l a < 0 \<and> sendfile_errno a \<noteq> EAGAIN) \<and>
     tried_reflink e1 = tried_reflink e \<and>
     filter attempts_sendfile evs1 =
       (if compress_type e = IMPORT_COMPRESS_UNCOMPRESSED \<and> \<not> tried_sendfile e
        then [EvSendfile (sendfile_l a) (sendfile_errno a)] else []) \<and>
     filter attempts_reflink evs1 = []"
  by (auto simp: try_sendfile_def Let_def report_progress_eq split: if_splits)

lemma body_latches:
  assumes "process_body e a = Inr (fl, e', evs)"
  shows "tried_reflink e' =
           (tried_reflink e \<or> compress_type e = IMPORT_COMPRESS_UNCOMPRESSED \<and> reflink_r a < 0) \<and>
         tried_sendfile e' =
           (tried_sendfile e \<or> compress_type e = IMPORT_COMPRESS_UNCOMPRESSED \<and>
              (tried_reflink e \<or> reflink_r a < 0) \<and>
              sendfile_l a < 0 \<and> sendfile_errno a \<noteq> EAGAIN) \<and>
         filter attempts_reflink evs =
           (if compress_type e = IMPORT_COMPRESS_UNCOMPRESSED \<and> \<not> tried_reflink e
            then [EvReflink (reflink_r a)] else []) \<and>
         filter attempts_sendfile evs =
           (if compress_type e = IMPORT_COMPRESS_UNCOMPRESSED \<and> \<not> tried_sendfile e \<and>
               (tried_reflink e \<or> reflink_r a < 0)
            then [EvSendfile (sendfile_l a) (sendfile_errno a)] else [])"
  using assms
proof (cases rule: process_body_cases)
  case reflink
  from try_reflink_exact [OF reflink(1)] reflink(2) show ?thesis by auto
next
  case (sendfile e1 evs1 evs2)
  from try_reflink_exact [OF sendfile(1)] try_sendfile_exact [OF sendfile(2)] sendfile(4)
  show ?thesis by auto
next
  case (rloop e1 evs1 e2 evs2 evs3)
  have l: "tried_reflink e' = tried_reflink e2" "tried_sendfile e' = tried_sendfile e2"
    "filter attempts_reflink evs3 = []" "filter attempts_sendfile evs3 = []"
    using read_loop_latch [OF rloop(3), of 0 0] by (simp_all add: no_attempts_filter)
  from try_reflink_exact [OF rloop(1)] try_sendfile_exact [OF rloop(2)] l rloop(5)
  show ?thesis by auto
next
  case (wout e1 evs1 e2 evs2 e3 evs3 evs4)
  have l: "tried_reflink e3 = tried_reflink e2" "tried_sendfile e3 = tried_sendfile e2"
    "filter attempts_reflink evs3 = []" "filter attempts_sendfile evs3 = []"
    using read_loop_latch [OF wout(3), of 0 0] by (simp_all add: no_attempts_filter)
  have w: "tried_reflink e' = tried_reflink e3" "tried_sendfile e' = tried_sendfile e3"
    "filter attempts_reflink evs4 = []" "filter attempts_sendfile evs4 = []"
    using write_out_latch [OF wout(4), of 0 0] by (simp_all add: no_attempts_filter)
  from try_reflink_exact [OF wout(1)] try_sendfile_exact [OF wout(2)] l w wout(6)
  show ?thesis by auto
qed

lemma process_latches:
  assumes "raw_export_process e a = Inr (rv, e', evs)"
  shows "tried_reflink e' =
           (tried_reflink e \<or> compress_type e = IMPORT_COMPRESS_UNCOMPRESSED \<and> reflink_r a < 0) \<and>
         tried_sendfile e' =
           (tried_sendfile e \<or> compress_type e = IMPORT_COMPRESS_UNCOMPRESSED \<and>
              (tried_reflink e \<or> reflink_r a < 0) \<and>
              sendfile_l a < 0 \<and> sendfile_errno a \<noteq> EAGAIN) \<and>
         filter attempts_reflink evs =
           (if compress_type e = IMPORT_COMPRESS_UNCOMPRESSED \<and> \<not> tried_reflink e
            then [EvReflink (reflink_r a)] else []) \<and>
         filter attempts_sendfile evs =
           (if compress_type e = IMPORT_COMPRESS_UNCOMPRESSED \<and> \<not> tried_sendfile e \<and>
               (tried_reflink e \<or> reflink_r a < 0)
            then [EvSendfile (sendfile_l a) (sendfile_errno a)] else [])"
proof -
  from assms obtain fl evs1 where
    body: "process_body e a = Inr (fl, e', evs1)" and
    evs: "evs = evs1 @ (case fl of GotoFinish r \<Rightarrow> finish e' r | _ \<Rightarrow> [])"
    by (auto simp: raw_export_process_Inr)
  have "filter attempts_reflink evs = filter attempts_reflink evs1"
    "filter attempts_sendfile evs = filter attempts_sendfile evs1"
    unfolding evs by (cases fl; simp add: finish_def)+
  with body_latches [OF body] show ?thesis by simp
qed

lemma failed_in_attempts:
  "list_ex reflink_failed evs = list_ex reflink_failed (filter attempts_reflink evs)"
  "list_ex sendfile_failed evs = list_ex sendfile_failed (filter attempts_sendfile evs)"
proof (induction evs)
  case Nil
  { case 1 show ?case by simp }
  { case 2 show ?case by simp }
next
  case (Cons ev evs)
  { case 1 with Cons show ?case by (cases ev) simp_all }
  { case 2 with Cons show ?case by (cases ev) simp_all }
qed

lemma process_latch_failed:
  assumes "raw_export_process e a = Inr (rv, e', evs)"
  shows "tried_reflink e' = (tried_reflink e \<or> list_ex reflink_failed evs)"
    "tried_reflink e \<longrightarrow> \<not> list_ex reflink_failed evs"
    "tried_sendfile e' = (tried_sendfile e \<or> list_ex sendfile_failed evs)"
    "tried_sendfile e \<longrightarrow> \<not> list_ex sendfile_failed evs"
  using process_latches [OF assms]
  by (auto simp: failed_in_attempts [of evs])

lemma latch_count:
  assumes step: "\<And>e a rv e' evs. raw_export_process e a = Inr (rv, e', evs) \<Longrightarrow>
      f e' = (f e \<or> list_ex P evs) \<and> (f e \<longrightarrow> \<not> list_ex P evs)"
  shows "transitions False True (map f (run_states e as)) =
           (if list_ex P (run_events e as) then 1 else 0) \<and>
         transitions True False (map f (run_states e as)) = 0 \<and>
         (f e \<longrightarrow> \<not> list_ex P (run_events e as))"
proof (induction as arbitrary: e)
  case Nil
  show ?case by (simp add: run_states_Nil run_events_Nil)
next
  case (Cons a as)
  show ?case
  proof (cases "raw_export_process e a")
    case (Inl x)
    then show ?thesis by (simp add: run_states_stop run_events_stop)
  next
    case (Inr t)
    obtain rv e' evs where t: "t = (rv, e', evs)" by (cases t)
    with Inr have st: "raw_export_process e a = Inr (rv, e', evs)" by simp
    obtain ss where ss: "run_states e' as = e' # ss" using run_states_hd by blast
    from step [OF st] Cons.IH [of e'] show ?thesis
      unfolding run_states_step [OF st] run_events_step [OF st] ss
      by (cases "f e"; cases "f e'"; cases "list_ex P evs") auto
  qed
qed

lemma run_compressed_no_attempts:
  "compress_type e \<noteq> IMPORT_COMPRESS_UNCOMPRESSED \<Longrightarrow>
     \<not> list_ex attempts_reflink (run_events e as) \<and> \<not> list_ex attempts_sendfile (run_events e as)"
proof (induction as arbitrary: e)
  case Nil
  show ?case by (simp add: run_events_Nil)
next
  case (Cons a as)
  show ?case
  proof (cases "raw_export_process e a")
    case (Inl x)
    then show ?thesis by (simp add: run_events_stop)
  next
    case (Inr t)
    obtain rv e' evs where t: "t = (rv, e', evs)" by (cases t)
    with Inr have st: "raw_export_process e a = Inr (rv, e', evs)" by simp
    have c: "compress_type e' \<noteq> IMPORT_COMPRESS_UNCOMPRESSED"
      using raw_export_process_frame [OF st] Cons.prems by (simp add: frame_def)
    have "filter attempts_reflink evs = []" "filter attempts_sendfile evs = []"
      using process_latches [OF st] Cons.prems by simp_all
    then have "\<not> list_ex attempts_reflink evs" "\<not> list_ex attempts_sendfile evs"
      by (simp_all add: filter_empty_conv list_ex_iff)
    with Cons.IH [OF c] show ?thesis by (simp add: run_events_step [OF st])
  qed
qed

lemma would_block_step:
  assumes "compress_type e = IMPORT_COMPRESS_UNCOMPRESSED" "tried_reflink e \<or> reflink_r a < 0"
    "\<not> tried_sendfile e" "sendfile_l a < 0" "sendfile_errno a = EAGAIN"
  shows "raw_export_process e a =
     Inr (0, if tried_reflink e then e else e\<lparr>tried_reflink := True\<rparr>,
          (if tried_reflink e then [] else [EvReflink (reflink_r a)]) @
          [EvSendfile (sendfile_l a) EAGAIN])"
  using assms
  by (auto simp: raw_export_process_def process_body_def and_then_def try_reflink_def
      try_sendfile_def Let_def)

subsection \<open>Steps that finish and steps that do not return\<close>

lemma starved_not_terminal: "starved e a \<Longrightarrow> terminal_outcome e a = None"
  by (simp add: starved_def terminal_outcome_in_loop find_loop_ends_None [symmetric])

lemma overrun_not_terminal: "write_overrun e a \<Longrightarrow> terminal_outcome e a = None"
  by (auto simp: write_overrun_def terminal_outcome_at_write write_outcome_def)

lemma terminal_step:
  assumes "terminal_outcome e a = Some r"
  shows "\<exists>e' evs. raw_export_process e a = Inr (0, e', evs @ finish e r) \<and> \<not> list_ex is_finish evs"
  using process_verdict [of e a] starved_not_terminal [of e a] overrun_not_terminal [of e a] assms
  by auto

lemma step_finish_count:
  assumes "raw_export_process e a = Inr (rv, e', evs)"
  shows "filter is_finish evs =
     (case terminal_outcome e a of
        None \<Rightarrow> []
      | Some r \<Rightarrow> [if on_finished e then EvOnFinished r else EvEventExit r])"
proof -
  from process_verdict [of e a] assms obtain evs0 where
    "evs = evs0 @ (case terminal_outcome e a of Some r \<Rightarrow> finish e r | None \<Rightarrow> [])"
    "\<not> list_ex is_finish evs0"
    by auto
  then show ?thesis
    by (cases "terminal_outcome e a") (simp_all add: no_finish_filter filter_finish)
qed

lemma run_finish_count: "length (filter is_finish (run_events e as)) = terminal_steps e as"
proof (induction as arbitrary: e)
  case Nil
  show ?case by (simp add: run_events_Nil)
next
  case (Cons a as)
  show ?case
  proof (cases "raw_export_process e a")
    case (Inl x)
    then show ?thesis by (simp add: run_events_stop)
  next
    case (Inr t)
    obtain rv e' evs where t: "t = (rv, e', evs)" by (cases t)
    with Inr have st: "raw_export_process e a = Inr (rv, e', evs)" by simp
    from step_finish_count [OF st] Cons.IH [of e'] show ?thesis
      by (cases "terminal_outcome e a") (simp_all add: run_events_step [OF st] st)
  qed
qed

lemma starved_no_overrun: "starved e a \<Longrightarrow> \<not> write_overrun e a"
  by (auto simp: starved_def write_overrun_def reaches_write_def find_loop_ends_None [symmetric])

lemma process_stops:
  "(raw_export_process e a = Inl x) =
     (x = OutOfAnswers \<and> starved e a \<or> x = AssertionFailed \<and> write_overrun e a)"
  using process_verdict [of e a] starved_no_overrun [of e a] by auto

lemma process_finishes:
  "process_body e a = Inr (GotoFinish r, e', evs) \<Longrightarrow> on_finished e' = on_finished e \<Longrightarrow>
     raw_export_process e a = Inr (0, e', evs @ finish e r)"
  by (simp add: raw_export_process_def finish_def)

lemma read_error_step:
  assumes "reaches_loop e a" "buffer e = []" "\<not> eof e" "find loop_ends (reads a) = Some x"
    "rd_l x < 0"
  shows "\<exists>e' evs. raw_export_process e a =
     Inr (0, e', evs @ [EvRead (rd_l x) (rd_errno x), EvLogError (rd_errno x)] @
                 finish e (- \<bar>rd_errno x\<bar>))"
proof -
  from body_at_loop_end [OF assms(1-4)] assms(5) obtain e' evs where
    "process_body e a = Inr (GotoFinish (- \<bar>rd_errno x\<bar>), e',
        evs @ [EvRead (rd_l x) (rd_errno x), EvLogError (rd_errno x)])"
    "on_finished e' = on_finished e"
    by (auto simp: log_error_errno_def)
  from process_finishes [OF this] show ?thesis by auto
qed

lemma encode_error_step:
  assumes "reaches_loop e a" "buffer e = []" "\<not> eof e" "find loop_ends (reads a) = Some x"
    "0 \<le> rd_l x" "enc_r x < 0"
  shows "\<exists>e' evs. raw_export_process e a =
     Inr (0, e', evs @ [if rd_l x = 0 then EvCompressFinish (enc_r x)
                         else EvCompress (rd_l x) (enc_r x), EvLogError (enc_r x)] @
                 finish e (- \<bar>enc_r x\<bar>))"
proof -
  let ?enc = "if rd_l x = 0 then EvCompressFinish (enc_r x) else EvCompress (rd_l x) (enc_r x)"
  from body_at_loop_end [OF assms(1-4)] assms(5,6) obtain e' evs where
    "process_body e a = Inr (GotoFinish (- \<bar>enc_r x\<bar>), e',
        (evs @ [EvRead (rd_l x) (rd_errno x)]) @ [?enc, EvLogError (enc_r x)])"
    "on_finished e' = on_finished e"
    by (auto simp: log_error_errno_def)
  from process_finishes [OF this] show ?thesis
    by (intro exI [of _ e'] exI [of _ "evs @ [EvRead (rd_l x) (rd_errno x)]"]) simp
qed

lemma write_error_step:
  assumes "reaches_write e a" "write_l a < 0" "write_errno a \<noteq> EAGAIN"
  shows "\<exists>e' evs. raw_export_process e a =
     Inr (0, e', evs @ [EvWrite (write_handed e a) (write_l a) (write_errno a),
                         EvLogError (write_errno a)] @ finish e (- \<bar>write_errno a\<bar>))"
proof -
  from body_at_write [OF assms(1)] assms(2,3) obtain e' evs where
    "process_body e a = Inr (GotoFinish (- \<bar>write_errno a\<bar>), e',
        evs @ [EvWrite (write_handed e a) (write_l a) (write_errno a), EvLogError (write_errno a)])"
    "on_finished e' = on_finished e"
    by (auto simp: log_error_errno_def)
  from process_finishes [OF this] show ?thesis by auto
qed

lemma started_engine_by_start:
  "c \<noteq> IMPORT_COMPRESS_UNKNOWN \<Longrightarrow>
   raw_export_start (raw_export_new True) ''image.raw'' 4 c (good_start sz)
     = Inr (0, started_engine c sz, [EvClose 6])"
  by (simp add: raw_export_start_def raw_export_new_def good_start_def started_engine_def
      reflink_snapshot_def cleanup_close_def S_ISREG_def EPERM_def Let_def)

subsection \<open>Evaluation of the samples\<close>

lemmas step_defs =
  raw_export_process_def process_body_def and_then_def try_reflink_def try_sendfile_def
  write_out_def raw_export_report_progress_def progress_percent_def finish_def Let_def
  log_error_errno_def EAGAIN_def

lemmas engine_defs = started_engine_def raw_export_new_def

lemmas outcome_defs =
  terminal_outcome_def reaches_loop_def write_outcome_def loop_ends_def reaches_write_def
  write_handed_def write_overrun_def starved_def

lemma chunk_quiet_step:
  assumes "tried_reflink e" "\<not> tried_sendfile e" "compress_type e = IMPORT_COMPRESS_UNCOMPRESSED"
  shows "\<exists>evs. raw_export_process e chunk_quiet
           = Inr (0, e\<lparr>written_uncompressed := written_uncompressed e + 16384,
                       written_compressed := written_compressed e + 16384\<rparr>, evs) \<and>
           notified evs = []"
  using assms by (simp add: step_defs chunk_quiet_def COPY_BUFFER_SIZE_def report_progress_eq)

lemma chunk_quiet_run:
  assumes "tried_reflink e" "\<not> tried_sendfile e" "compress_type e = IMPORT_COMPRESS_UNCOMPRESSED"
  shows "length (run e (replicate k chunk_quiet)) = k \<and>
         notified (run_events e (replicate k chunk_quiet)) = [] \<and>
         run_final e (replicate k chunk_quiet)
           = e\<lparr>written_uncompressed := written_uncompressed e + word_of_nat k * 16384,
                written_compressed := written_compressed e + word_of_nat k * 16384\<rparr>"
  using assms
proof (induction k arbitrary: e)
  case 0
  show ?case by (simp add: run_events_Nil run_final_Nil)
next
  case (Suc k)
  let ?e' = "e\<lparr>written_uncompressed := written_uncompressed e + 16384,
                written_compressed := written_compressed e + 16384\<rparr>"
  from chunk_quiet_step [OF Suc.prems] obtain evs where
    st: "raw_export_process e chunk_quiet = Inr (0, ?e', evs)" and n: "notified evs = []"
    by blast
  have "tried_reflink ?e'" "\<not> tried_sendfile ?e'" "compress_type ?e' = IMPORT_COMPRESS_UNCOMPRESSED"
    using Suc.prems by simp_all
  from Suc.IH [OF this] n show ?case
    by (simp add: st run_events_step [OF st] run_final_step [OF st] notified_append
        algebra_simps)
qed

section \<open>The claims\<close>

subsection \<open>C1: The uncompressed counter at successful completion\<close>

text \<open>
  C1, as amended. Take an engine that has written nothing and has not seen the end of
  its input, and any sequence of transfer steps in which \<open>read\<close> and \<open>sendfile\<close> behave
  as on an unchanging source of \<open>st_size\<close> bytes, failed calls set \<open>errno\<close>, and the
  reflink of the whole file does not succeed. If the finish action is taken with result
  0, \<open>written_uncompressed\<close> equals \<open>st_size\<close>. (The step in which the reflink succeeds
  finishes with result 0 at once and leaves the counter as it was.)
\<close>

theorem uncompressed_counter_at_success:
  assumes "written_uncompressed e = 0" and "\<not> eof e"
    and "reads_file (unat (st_size e)) (run_events e as)"
    and "list_all errno_ok (run_events e as)"
    and "\<not> list_ex reflink_succeeded (run_events e as)"
    and "list_ex is_success (run_events e as)"
  shows "written_uncompressed (run_final e as) = st_size e"
proof -
  note c = run_counter [of e as]
  from c assms(2,4,5,6) have "list_ex zero_transfer (run_events e as)" by blast
  with assms(3) have "consumed (run_events e as) = unat (st_size e)"
    by (rule reads_file_exhausted)
  with c assms(1) show ?thesis by simp
qed

theorem uncompressed_counter_at_success_witness:
  "run_events (started_engine IMPORT_COMPRESS_UNCOMPRESSED 3) [sendfile_three, sendfile_done]
     = [EvReflink (- 95), EvSendfile 3 0, EvRatelimit True, EvNotify 100,
        EvSendfile 0 0, EvCopyTimes, EvCopyXattr, EvOnFinished 0] \<and>
   st_size (started_engine IMPORT_COMPRESS_UNCOMPRESSED 3) = 3 \<and>
   written_uncompressed
     (run_final (started_engine IMPORT_COMPRESS_UNCOMPRESSED 3) [sendfile_three, sendfile_done]) = 3"
proof -
  let ?e = "started_engine IMPORT_COMPRESS_UNCOMPRESSED 3"
  let ?as = "[sendfile_three, sendfile_done]"
  have ev: "run_events ?e ?as
     = [EvReflink (- 95), EvSendfile 3 0, EvRatelimit True, EvNotify 100,
        EvSendfile 0 0, EvCopyTimes, EvCopyXattr, EvOnFinished 0]"
    by (simp add: run_events_def step_defs engine_defs sendfile_three_def sendfile_done_def)
  have sz: "st_size ?e = 3" "written_uncompressed ?e = 0" "\<not> eof ?e"
    by (simp_all add: engine_defs)
  have h: "reads_file (unat (st_size ?e)) (run_events ?e ?as)"
    "list_all errno_ok (run_events ?e ?as)"
    "\<not> list_ex reflink_succeeded (run_events ?e ?as)"
    "list_ex is_success (run_events ?e ?as)"
    unfolding ev sz by simp_all
  from uncompressed_counter_at_success [OF sz(2,3) h] ev sz(1) show ?thesis by simp
qed

text \<open>
  The claim C1 as stated fails on the reflink fast path: the export of a file of 4096
  bytes completes with result 0 in its first step, and \<open>written_uncompressed\<close> is still 0.
\<close>

theorem reflink_leaves_counter_counterexample:
  "run_events (started_engine IMPORT_COMPRESS_UNCOMPRESSED 4096) [reflink_works]
     = [EvReflink 0, EvCopyTimes, EvCopyXattr, EvOnFinished 0] \<and>
   written_uncompressed (run_final (started_engine IMPORT_COMPRESS_UNCOMPRESSED 4096) [reflink_works]) = 0 \<and>
   st_size (run_final (started_engine IMPORT_COMPRESS_UNCOMPRESSED 4096) [reflink_works]) = 4096"
  by (simp add: run_events_def run_final_def run_states_def step_defs engine_defs reflink_works_def)

subsection \<open>C2: The finish action\<close>

text \<open>
  C2, as amended. A transfer step with a terminal outcome (the reflink succeeds,
  \<open>sendfile\<close> returns 0, the input is exhausted and the buffer empty, or \<open>read\<close>, the
  compressor or \<open>write\<close> fails) returns after calling the callback, or \<open>sd_event_exit\<close>
  when none is registered, exactly once, with the result of that outcome and as its last
  call; a step without a terminal outcome that returns has not called it. Over a sequence
  of invocations the finish action therefore happens once for every invocation with a
  terminal outcome.
\<close>

theorem finish_once_per_terminal_step:
  "(\<forall>r. terminal_outcome e a = Some r \<longrightarrow>
      (\<exists>e' evs. raw_export_process e a = Inr (0, e', evs @ finish e r) \<and>
         \<not> list_ex is_finish evs) \<and>
      filter is_finish (finish e r) = [if on_finished e then EvOnFinished r else EvEventExit r] \<and>
      last (finish e r) = (if on_finished e then EvOnFinished r else EvEventExit r)) \<and>
   (terminal_outcome e a = None \<longrightarrow>
      (\<forall>rv e' evs. raw_export_process e a = Inr (rv, e', evs) \<longrightarrow> \<not> list_ex is_finish evs)) \<and>
   length (filter is_finish (run_events e as)) = terminal_steps e as"
proof -
  have t: "(\<exists>e' evs. raw_export_process e a = Inr (0, e', evs @ finish e r) \<and>
         \<not> list_ex is_finish evs) \<and>
      filter is_finish (finish e r) = [if on_finished e then EvOnFinished r else EvEventExit r] \<and>
      last (finish e r) = (if on_finished e then EvOnFinished r else EvEventExit r)"
    if "terminal_outcome e a = Some r" for r
    using terminal_step [OF that] filter_finish [of e r] last_finish [of "[]" e r] by simp
  have n: "\<not> list_ex is_finish evs"
    if "terminal_outcome e a = None" "raw_export_process e a = Inr (rv, e', evs)" for rv e' evs
    using step_finish_count [OF that(2)] that(1)
    by (simp add: filter_empty_conv list_ex_iff)
  from t n run_finish_count [of e as] show ?thesis by blast
qed

theorem finish_once_per_terminal_step_witness:
  "terminal_outcome (started_engine IMPORT_COMPRESS_GZIP 10) read_fails = Some (- 5) \<and>
   raw_export_process (started_engine IMPORT_COMPRESS_GZIP 10) read_fails
     = Inr (0, started_engine IMPORT_COMPRESS_GZIP 10,
            [EvRead (- 1) 5, EvLogError 5, EvOnFinished (- 5)]) \<and>
   terminal_outcome (started_engine IMPORT_COMPRESS_GZIP 10) write_fails = Some (- 32) \<and>
   (\<exists>e' evs. raw_export_process (started_engine IMPORT_COMPRESS_GZIP 10) write_fails
      = Inr (0, e', evs @ [EvOnFinished (- 32)]) \<and> \<not> list_ex is_finish evs) \<and>
   terminal_outcome (started_engine IMPORT_COMPRESS_GZIP 0) last_flush = None \<and>
   \<not> list_ex is_finish
       [EvRead 0 0, EvCompressFinish 0, EvWrite [31, 139] 2 0, EvRatelimit True, EvNotify 100]"
proof -
  let ?e = "started_engine IMPORT_COMPRESS_GZIP 10"
  let ?z = "started_engine IMPORT_COMPRESS_GZIP 0"
  have t1: "terminal_outcome ?e read_fails = Some (- 5)"
    by (simp add: outcome_defs engine_defs read_fails_def log_error_errno_def)
  have t2: "terminal_outcome ?e write_fails = Some (- 32)"
    by (simp add: outcome_defs engine_defs write_fails_def log_error_errno_def EAGAIN_def)
  have t3: "terminal_outcome ?z last_flush = None"
    by (simp add: outcome_defs engine_defs last_flush_def)
  have f: "finish ?e r = [EvOnFinished r]" if "r < 0" for r
    using that by (simp add: finish_def engine_defs)
  have st: "raw_export_process ?e read_fails
      = Inr (0, ?e, [EvRead (- 1) 5, EvLogError 5, EvOnFinished (- 5)])"
    by (simp add: step_defs engine_defs read_fails_def)
  have st0: "raw_export_process ?z last_flush
     = Inr (0, ?z\<lparr>eof := True, last_percent := 100, written_compressed := 2\<rparr>,
            [EvRead 0 0, EvCompressFinish 0, EvWrite [31, 139] 2 0, EvRatelimit True, EvNotify 100])"
    by (simp add: step_defs engine_defs last_flush_def)
  from finish_once_per_terminal_step [of ?e write_fails "[]", THEN conjunct1] t2
  have "\<exists>e' evs. raw_export_process ?e write_fails = Inr (0, e', evs @ finish ?e (- 32)) \<and>
         \<not> list_ex is_finish evs"
    by blast
  then have w: "\<exists>e' evs. raw_export_process ?e write_fails = Inr (0, e', evs @ [EvOnFinished (- 32)]) \<and>
         \<not> list_ex is_finish evs"
    by (simp add: f)
  from finish_once_per_terminal_step [of ?z last_flush "[]", THEN conjunct2, THEN conjunct1] t3 st0
  have n: "\<not> list_ex is_finish
       [EvRead 0 0, EvCompressFinish 0, EvWrite [31, 139] 2 0, EvRatelimit True, EvNotify 100]"
    by blast
  from t1 st t2 w t3 n show ?thesis by blast
qed

text \<open>
  The claim C2 as stated fails: nothing in the engine records that the export has
  finished. Exporting an empty file with gzip, the second step finishes with success, and
  a third notification makes the step call the callback once more.
\<close>

theorem finish_twice_counterexample:
  "filter is_finish
     (run_events (started_engine IMPORT_COMPRESS_GZIP 0) [last_flush, last_flush, last_flush])
     = [EvOnFinished 0, EvOnFinished 0]"
  by (simp add: run_events_def step_defs engine_defs last_flush_def)

subsection \<open>C3: The two latches\<close>

text \<open>
  C3, as amended. Over any sequence of invocations of the transfer step each of the two
  latches goes from false to true at most once and never back: once when a step of the run
  has made an attempt that failed (\<open>btrfs_reflink\<close> returned an error; \<open>sendfile\<close> failed
  with an error other than \<open>EAGAIN\<close>), and not at all otherwise. A step that returns has
  set \<open>tried_reflink\<close> exactly when the export is uncompressed and the reflink it
  attempted failed, and \<open>tried_sendfile\<close> exactly when the export is uncompressed, the
  reflink is out of the way and \<open>sendfile\<close> failed with an error other than \<open>EAGAIN\<close>; it
  has called each strategy exactly when the latch of that strategy was not set. So from a
  state in which a latch is set, and in a compressed export, no later step calls that
  strategy. A step in which \<open>sendfile\<close> fails with \<open>EAGAIN\<close> returns 0 at once and leaves
  \<open>tried_sendfile\<close> unset, and the next step that returns has called \<open>sendfile\<close> again.
\<close>

theorem latches_one_shot:
  "transitions False True (map tried_reflink (run_states e as)) =
     (if list_ex reflink_failed (run_events e as) then 1 else 0) \<and>
   transitions True False (map tried_reflink (run_states e as)) = 0 \<and>
   transitions False True (map tried_sendfile (run_states e as)) =
     (if list_ex sendfile_failed (run_events e as) then 1 else 0) \<and>
   transitions True False (map tried_sendfile (run_states e as)) = 0 \<and>
   (tried_reflink e \<longrightarrow> \<not> list_ex attempts_reflink (run_events e as)) \<and>
   (tried_sendfile e \<longrightarrow> \<not> list_ex attempts_sendfile (run_events e as)) \<and>
   (compress_type e \<noteq> IMPORT_COMPRESS_UNCOMPRESSED \<longrightarrow>
      \<not> list_ex attempts_reflink (run_events e as) \<and>
      \<not> list_ex attempts_sendfile (run_events e as)) \<and>
   (\<forall>rv e' evs. raw_export_process e a = Inr (rv, e', evs) \<longrightarrow>
      tried_reflink e' =
        (tried_reflink e \<or> compress_type e = IMPORT_COMPRESS_UNCOMPRESSED \<and> reflink_r a < 0) \<and>
      tried_sendfile e' =
        (tried_sendfile e \<or> compress_type e = IMPORT_COMPRESS_UNCOMPRESSED \<and>
           (tried_reflink e \<or> reflink_r a < 0) \<and>
           sendfile_l a < 0 \<and> sendfile_errno a \<noteq> EAGAIN) \<and>
      filter attempts_reflink evs =
        (if compress_type e = IMPORT_COMPRESS_UNCOMPRESSED \<and> \<not> tried_reflink e
         then [EvReflink (reflink_r a)] else []) \<and>
      filter attempts_sendfile evs =
        (if compress_type e = IMPORT_COMPRESS_UNCOMPRESSED \<and> \<not> tried_sendfile e \<and>
            (tried_reflink e \<or> reflink_r a < 0)
         then [EvSendfile (sendfile_l a) (sendfile_errno a)] else [])) \<and>
   (compress_type e = IMPORT_COMPRESS_UNCOMPRESSED \<and> (tried_reflink e \<or> reflink_r a < 0) \<and>
    \<not> tried_sendfile e \<and> sendfile_l a < 0 \<and> sendfile_errno a = EAGAIN \<longrightarrow>
      raw_export_process e a =
        Inr (0, if tried_reflink e then e else e\<lparr>tried_reflink := True\<rparr>,
             (if tried_reflink e then [] else [EvReflink (reflink_r a)]) @
             [EvSendfile (sendfile_l a) EAGAIN])) \<and>
   (\<forall>rv e' evs l. raw_export_process e a = Inr (rv, e', evs) \<and> l < 0 \<and>
        EvSendfile l EAGAIN \<in> set evs \<longrightarrow>
      \<not> tried_sendfile e' \<and>
      (\<forall>a2 rv2 e2 evs2. raw_export_process e' a2 = Inr (rv2, e2, evs2) \<longrightarrow>
         EvSendfile (sendfile_l a2) (sendfile_errno a2) \<in> set evs2))"
proof -
  have r: "transitions False True (map tried_reflink (run_states e as)) =
           (if list_ex reflink_failed (run_events e as) then 1 else 0) \<and>
         transitions True False (map tried_reflink (run_states e as)) = 0 \<and>
         (tried_reflink e \<longrightarrow> \<not> list_ex reflink_failed (run_events e as))"
    by (rule latch_count) (use process_latch_failed in blast)
  have s: "transitions False True (map tried_sendfile (run_states e as)) =
           (if list_ex sendfile_failed (run_events e as) then 1 else 0) \<and>
         transitions True False (map tried_sendfile (run_states e as)) = 0 \<and>
         (tried_sendfile e \<longrightarrow> \<not> list_ex sendfile_failed (run_events e as))"
    by (rule latch_count) (use process_latch_failed in blast)
  have w: "\<not> tried_sendfile e' \<and>
      (\<forall>a2 rv2 e2 evs2. raw_export_process e' a2 = Inr (rv2, e2, evs2) \<longrightarrow>
         EvSendfile (sendfile_l a2) (sendfile_errno a2) \<in> set evs2)"
    if "raw_export_process e a = Inr (rv, e', evs) \<and> l < 0 \<and> EvSendfile l EAGAIN \<in> set evs"
    for rv e' evs l
  proof -
    from that process_latch [of e a rv e' evs l]
    have p: "\<not> tried_sendfile e'" "tried_reflink e'"
      "compress_type e' = IMPORT_COMPRESS_UNCOMPRESSED" by simp_all
    with retry_after_would_block [OF p] show ?thesis by blast
  qed
  have x: "tried_reflink e' =
        (tried_reflink e \<or> compress_type e = IMPORT_COMPRESS_UNCOMPRESSED \<and> reflink_r a < 0) \<and>
      tried_sendfile e' =
        (tried_sendfile e \<or> compress_type e = IMPORT_COMPRESS_UNCOMPRESSED \<and>
           (tried_reflink e \<or> reflink_r a < 0) \<and>
           sendfile_l a < 0 \<and> sendfile_errno a \<noteq> EAGAIN) \<and>
      filter attempts_reflink evs =
        (if compress_type e = IMPORT_COMPRESS_UNCOMPRESSED \<and> \<not> tried_reflink e
         then [EvReflink (reflink_r a)] else []) \<and>
      filter attempts_sendfile evs =
        (if compress_type e = IMPORT_COMPRESS_UNCOMPRESSED \<and> \<not> tried_sendfile e \<and>
            (tried_reflink e \<or> reflink_r a < 0)
         then [EvSendfile (sendfile_l a) (sendfile_errno a)] else [])"
    if "raw_export_process e a = Inr (rv, e', evs)" for rv e' evs
    using process_latches [OF that] .
  note k1 = run_keeps_reflink_latch [of e as]
  note k2 = run_keeps_sendfile_latch [of e as]
  note c = run_compressed_no_attempts [of e as]
  note b = would_block_step [of e a]
  from r s have rs: "transitions False True (map tried_reflink (run_states e as)) =
     (if list_ex reflink_failed (run_events e as) then 1 else 0)"
    "transitions True False (map tried_reflink (run_states e as)) = 0"
    "transitions False True (map tried_sendfile (run_states e as)) =
     (if list_ex sendfile_failed (run_events e as) then 1 else 0)"
    "transitions True False (map tried_sendfile (run_states e as)) = 0"
    by blast+
  show ?thesis
    apply (intro conjI)
             apply (rule rs(1))
            apply (rule rs(2))
           apply (rule rs(3))
          apply (rule rs(4))
    using k1 apply blast
    using k2 apply blast
    using c apply blast
    using x apply blast
    using b apply blast
    using w apply blast
    done
qed

theorem latches_one_shot_witness:
  "raw_export_process (started_engine IMPORT_COMPRESS_UNCOMPRESSED 4096) would_block
     = Inr (0, (started_engine IMPORT_COMPRESS_UNCOMPRESSED 4096)\<lparr>tried_reflink := True\<rparr>,
            [EvReflink (- 95), EvSendfile (- 1) EAGAIN]) \<and>
   \<not> tried_sendfile ((started_engine IMPORT_COMPRESS_UNCOMPRESSED 4096)\<lparr>tried_reflink := True\<rparr>) \<and>
   raw_export_process ((started_engine IMPORT_COMPRESS_UNCOMPRESSED 4096)\<lparr>tried_reflink := True\<rparr>) would_block
     = Inr (0, (started_engine IMPORT_COMPRESS_UNCOMPRESSED 4096)\<lparr>tried_reflink := True\<rparr>,
            [EvSendfile (- 1) EAGAIN]) \<and>
   \<not> list_ex attempts_reflink
       (run_events ((started_engine IMPORT_COMPRESS_UNCOMPRESSED 4096)\<lparr>tried_reflink := True\<rparr>)
          [would_block, would_block]) \<and>
   run_events (started_engine IMPORT_COMPRESS_UNCOMPRESSED 4096) [would_block, sendfile_unsupported]
     = [EvReflink (- 95), EvSendfile (- 1) EAGAIN, EvSendfile (- 1) 22, EvRead 3 0, EvCompress 3 0,
        EvWrite [1, 2, 3] 3 0, EvRatelimit True, EvNotify 0] \<and>
   transitions False True (map tried_reflink
     (run_states (started_engine IMPORT_COMPRESS_UNCOMPRESSED 4096) [would_block, sendfile_unsupported])) = 1 \<and>
   transitions False True (map tried_sendfile
     (run_states (started_engine IMPORT_COMPRESS_UNCOMPRESSED 4096) [would_block, sendfile_unsupported])) = 1"
proof -
  let ?e = "started_engine IMPORT_COMPRESS_UNCOMPRESSED 4096"
  let ?e1 = "?e\<lparr>tried_reflink := True\<rparr>"
  let ?as = "[would_block, sendfile_unsupported]"
  have h: "compress_type ?e = IMPORT_COMPRESS_UNCOMPRESSED" "\<not> tried_reflink ?e"
    "reflink_r would_block < 0" "\<not> tried_sendfile ?e" "sendfile_l would_block < 0"
    "sendfile_errno would_block = EAGAIN" "reflink_r would_block = - 95"
    "sendfile_l would_block = - 1"
    by (simp_all add: engine_defs would_block_def)
  have h1: "compress_type ?e1 = IMPORT_COMPRESS_UNCOMPRESSED" "tried_reflink ?e1"
    "\<not> tried_sendfile ?e1"
    by (simp_all add: engine_defs)
  note lo = latches_one_shot [of ?e ?as would_block]
  note lo1 = latches_one_shot [of ?e1 "[would_block, would_block]" would_block]
  note wb = lo [THEN conjunct2, THEN conjunct2, THEN conjunct2, THEN conjunct2, THEN conjunct2, THEN conjunct2, THEN conjunct2, THEN conjunct2, THEN conjunct1]
  note wb1 = lo1 [THEN conjunct2, THEN conjunct2, THEN conjunct2, THEN conjunct2, THEN conjunct2, THEN conjunct2, THEN conjunct2, THEN conjunct2, THEN conjunct1]
  from wb h have s1: "raw_export_process ?e would_block
      = Inr (0, ?e1, [EvReflink (- 95), EvSendfile (- 1) EAGAIN])"
    by simp
  from wb1 h1 h(5,6,8) have s2: "raw_export_process ?e1 would_block
      = Inr (0, ?e1, [EvSendfile (- 1) EAGAIN])"
    by simp
  from lo1 [THEN conjunct2, THEN conjunct2, THEN conjunct2, THEN conjunct2, THEN conjunct1] h1(2) have c: "\<not> list_ex attempts_reflink (run_events ?e1 [would_block, would_block])"
    by blast
  have s3: "raw_export_process ?e1 sendfile_unsupported
      = Inr (0, ?e1\<lparr>tried_sendfile := True, written_uncompressed := 3, written_compressed := 3,
                     last_percent := 0\<rparr>,
             [EvSendfile (- 1) 22, EvRead 3 0, EvCompress 3 0, EvWrite [1, 2, 3] 3 0,
              EvRatelimit True, EvNotify 0])"
    by (simp add: step_defs engine_defs sendfile_unsupported_def)
  have ev: "run_events ?e ?as
     = [EvReflink (- 95), EvSendfile (- 1) EAGAIN, EvSendfile (- 1) 22, EvRead 3 0, EvCompress 3 0,
        EvWrite [1, 2, 3] 3 0, EvRatelimit True, EvNotify 0]"
    using s1 s3 by (simp add: run_events_def)
  have f: "list_ex reflink_failed (run_events ?e ?as)" "list_ex sendfile_failed (run_events ?e ?as)"
    unfolding ev by (simp_all add: EAGAIN_def)
  from lo [THEN conjunct1] f(1)
  have t1: "transitions False True (map tried_reflink (run_states ?e ?as)) = 1"
    by simp
  from lo [THEN conjunct2, THEN conjunct2, THEN conjunct1] f(2)
  have t2: "transitions False True (map tried_sendfile (run_states ?e ?as)) = 1"
    by simp
  from s1 h1(3) s2 c ev t1 t2 show ?thesis by blast
qed

text \<open>
  The claim C3 as stated fails in its "exactly once": when the reflink of the whole file
  works, the export is complete after one step and neither latch has ever been set.
\<close>

theorem latch_set_exactly_once_counterexample:
  "run_events (started_engine IMPORT_COMPRESS_UNCOMPRESSED 4096) [reflink_works]
     = [EvReflink 0, EvCopyTimes, EvCopyXattr, EvOnFinished 0] \<and>
   transitions False True
     (map tried_reflink (run_states (started_engine IMPORT_COMPRESS_UNCOMPRESSED 4096) [reflink_works])) = 0 \<and>
   transitions False True
     (map tried_sendfile (run_states (started_engine IMPORT_COMPRESS_UNCOMPRESSED 4096) [reflink_works])) = 0"
  by (simp add: run_events_def run_states_def step_defs engine_defs reflink_works_def)

subsection \<open>C4: A write on the buffered path\<close>




subsection \<open>C5: The progress reporter\<close>

text \<open>
  C5, as amended. The rate limiter of a new engine is set up for one event per 100 ms.
  The percentage is 100 when the bytes written reach the size, and
  otherwise the quotient of \<open>written * 100\<close> modulo \<open>2^64\<close> by the size, which is
  \<open>floor (written * 100 / size)\<close> whenever \<open>written * 100\<close> is below \<open>2^64\<close>; it never exceeds
  100. A percentage is emitted only if it differs from the last reported one and the rate
  limiter allows it, and only then does \<open>last_percent\<close> change; nothing else in the engine
  changes.
\<close>

theorem report_progress_amended:
  "progress_rate_limit (raw_export_new cb) = \<lparr> interval = 100000, burst = 1 \<rparr> \<and>
   (\<exists>p. progress_percent e = Inr p \<and>
       unat p = wrapped_percent (unat (written_uncompressed e)) (unat (st_size e)) \<and>
       unat p \<le> 100 \<and>
       (unat (written_uncompressed e) * 100 < 2 ^ 64 \<longrightarrow>
          unat p = spec_percent (unat (written_uncompressed e)) (unat (st_size e))) \<and>
       (\<exists>e' evs. raw_export_report_progress e ok = Inr (e', evs) \<and>
          notified evs = (if p \<noteq> last_percent e \<and> ok then [p] else []) \<and>
          e' = (if p \<noteq> last_percent e \<and> ok then e\<lparr>last_percent := p\<rparr> else e)))"
proof -
  have l: "progress_rate_limit (raw_export_new cb) = \<lparr> interval = 100000, burst = 1 \<rparr>"
    by (simp add: raw_export_new_def USEC_PER_MSEC_def)
  have a: "progress_percent e = Inr (percent_now e)"
    by (simp add: progress_percent_eq percent_now_def)
  have b: "unat (percent_now e) \<le> 100"
    by (simp add: unat_percent_now wrapped_percent_le)
  have c: "unat (written_uncompressed e) * 100 < 2 ^ 64 \<longrightarrow>
      unat (percent_now e) = spec_percent (unat (written_uncompressed e)) (unat (st_size e))"
    by (simp add: unat_percent_now wrapped_percent_spec)
  have d: "\<exists>e' evs. raw_export_report_progress e ok = Inr (e', evs) \<and>
          notified evs = (if percent_now e \<noteq> last_percent e \<and> ok then [percent_now e] else []) \<and>
          e' = (if percent_now e \<noteq> last_percent e \<and> ok then e\<lparr>last_percent := percent_now e\<rparr> else e)"
    by (simp add: report_progress_eq)
  from a b c d unat_percent_now [of e] have
    "\<exists>p. progress_percent e = Inr p \<and>
       unat p = wrapped_percent (unat (written_uncompressed e)) (unat (st_size e)) \<and>
       unat p \<le> 100 \<and>
       (unat (written_uncompressed e) * 100 < 2 ^ 64 \<longrightarrow>
          unat p = spec_percent (unat (written_uncompressed e)) (unat (st_size e))) \<and>
       (\<exists>e' evs. raw_export_report_progress e ok = Inr (e', evs) \<and>
          notified evs = (if p \<noteq> last_percent e \<and> ok then [p] else []) \<and>
          e' = (if p \<noteq> last_percent e \<and> ok then e\<lparr>last_percent := p\<rparr> else e))"
    by blast
  with l show ?thesis by blast
qed

theorem report_progress_amended_witness:
  "unat (written_uncompressed half_way) * 100 < (2::nat) ^ 64 \<and>
   progress_percent half_way = Inr 50 \<and>
   spec_percent (unat (written_uncompressed half_way)) (unat (st_size half_way)) = 50 \<and>
   (\<exists>evs. raw_export_report_progress half_way True = Inr (half_way\<lparr>last_percent := 50\<rparr>, evs) \<and>
      notified evs = [50])"
proof -
  have h: "unat (written_uncompressed half_way) * 100 < (2::nat) ^ 64"
    by (simp add: half_way_def started_engine_def raw_export_new_def)
  have sp: "spec_percent (unat (written_uncompressed half_way)) (unat (st_size half_way)) = 50"
    by (simp add: spec_percent_def half_way_def started_engine_def raw_export_new_def)
  have lp: "last_percent half_way = - 1"
    by (simp add: half_way_def started_engine_def raw_export_new_def)
  from report_progress_amended [of True half_way True] obtain p e' evs where
    p: "progress_percent half_way = Inr p"
       "unat (written_uncompressed half_way) * 100 < 2 ^ 64 \<longrightarrow>
          unat p = spec_percent (unat (written_uncompressed half_way)) (unat (st_size half_way))"
       "raw_export_report_progress half_way True = Inr (e', evs)"
       "notified evs = (if p \<noteq> last_percent half_way \<and> True then [p] else [])"
       "e' = (if p \<noteq> last_percent half_way \<and> True then half_way\<lparr>last_percent := p\<rparr> else half_way)"
    by blast
  from p(2) h sp have "unat p = 50" by simp
  then have p50: "p = 50" by (simp add: word_unat_eq_iff)
  with p lp h sp show ?thesis by simp
qed

text \<open>
  The claim C5 as stated fails where \<open>written * 100\<close> does not fit in 64 bits: after
  \<open>2^58\<close> bytes of a source of \<open>2^62\<close> bytes the reporter computes 2, and
  \<open>floor (written * 100 / size)\<close> is 6.
\<close>

theorem report_progress_floor_counterexample:
  "progress_percent far_into_huge_export = Inr 2 \<and>
   written_uncompressed far_into_huge_export < st_size far_into_huge_export \<and>
   spec_percent (unat (written_uncompressed far_into_huge_export))
     (unat (st_size far_into_huge_export)) = 6"
  by (simp add: progress_percent_def spec_percent_def far_into_huge_export_def
      started_engine_def raw_export_new_def)

text \<open>The state of the counterexample to C5 is the one that \<open>2^44\<close> chunks of 16 KiB
  lead to.\<close>

lemma far_into_huge_export_reached:
  "run_final (started_engine IMPORT_COMPRESS_UNCOMPRESSED 0x4000000000000000)
     (replicate 17592186044416 chunk_quiet) = far_into_huge_export"
proof -
  let ?e0 = "started_engine IMPORT_COMPRESS_UNCOMPRESSED 0x4000000000000000"
  let ?e1 = "?e0\<lparr>tried_reflink := True, written_uncompressed := 16384,
               written_compressed := 16384\<rparr>"
  have s1: "raw_export_process ?e0 chunk_quiet
      = Inr (0, ?e1, [EvReflink (- 95), EvSendfile 16384 0, EvRatelimit False])"
    by (simp add: step_defs engine_defs chunk_quiet_def COPY_BUFFER_SIZE_def)
  have r: "replicate 17592186044416 chunk_quiet = chunk_quiet # replicate 17592186044415 chunk_quiet"
    by (simp add: replicate_Suc [symmetric] del: replicate_Suc)
  have "run_final ?e1 (replicate 17592186044415 chunk_quiet) = far_into_huge_export"
    using chunk_quiet_run [of ?e1 17592186044415]
    by (simp add: engine_defs far_into_huge_export_def)
  then show ?thesis by (simp only: r run_final_step [OF s1])
qed

subsection \<open>C6: The sequence of emitted percentages\<close>

text \<open>
  C6, as amended. Every percentage that is emitted is at most 100. For an engine that has
  reported nothing yet, a source smaller than \<open>2^64 / 100\<close> bytes and a sequence of steps
  that moves fewer than \<open>2^64\<close> bytes in all, the emitted percentages are strictly
  increasing: the sequence is non-decreasing and no value is emitted twice.
\<close>

theorem progress_sequence_increasing:
  "(\<forall>p \<in> set (notified (run_events e as)). p \<le> 100) \<and>
   (last_percent e = - 1 \<and> unat (st_size e) * 100 < 2 ^ 64 \<and>
    unat (written_uncompressed e) + consumed (run_events e as) < 2 ^ 64 \<longrightarrow>
      sorted_wrt (<) (notified (run_events e as)) \<and>
      sorted (notified (run_events e as)) \<and> distinct (notified (run_events e as)))"
proof -
  have "sorted_wrt (<) (notified (run_events e as))"
    if "last_percent e = - 1" "unat (st_size e) * 100 < 2 ^ 64"
      "unat (written_uncompressed e) + consumed (run_events e as) < 2 ^ 64"
    using run_notified_increasing [of e as] that by simp
  then show ?thesis
    using notified_bounded [of e as] by (auto simp: strict_sorted_iff)
qed

theorem progress_sequence_increasing_witness:
  "last_percent (started_engine IMPORT_COMPRESS_UNCOMPRESSED 6) = - 1 \<and>
   unat (st_size (started_engine IMPORT_COMPRESS_UNCOMPRESSED 6)) * 100 < (2::nat) ^ 64 \<and>
   notified (run_events (started_engine IMPORT_COMPRESS_UNCOMPRESSED 6)
      [sendfile_two, sendfile_two, sendfile_two, sendfile_done]) = [33, 66, 100] \<and>
   sorted_wrt (<)
     (notified (run_events (started_engine IMPORT_COMPRESS_UNCOMPRESSED 6)
        [sendfile_two, sendfile_two, sendfile_two, sendfile_done]))"
proof -
  let ?e = "started_engine IMPORT_COMPRESS_UNCOMPRESSED 6"
  let ?as = "[sendfile_two, sendfile_two, sendfile_two, sendfile_done]"
  have ev: "run_events ?e ?as
     = [EvReflink (- 95), EvSendfile 2 0, EvRatelimit True, EvNotify 33,
        EvSendfile 2 0, EvRatelimit True, EvNotify 66,
        EvSendfile 2 0, EvRatelimit True, EvNotify 100,
        EvSendfile 0 0, EvCopyTimes, EvCopyXattr, EvOnFinished 0]"
    by (simp add: run_events_def step_defs engine_defs sendfile_two_def sendfile_done_def)
  have h: "last_percent ?e = - 1" "unat (st_size ?e) * 100 < (2::nat) ^ 64"
    "unat (written_uncompressed ?e) + consumed (run_events ?e ?as) < 2 ^ 64"
    unfolding ev by (simp_all add: engine_defs)
  from progress_sequence_increasing [of ?e ?as] h
  have "sorted_wrt (<) (notified (run_events ?e ?as))" by blast
  moreover have "notified (run_events ?e ?as) = [33, 66, 100]" unfolding ev by simp
  ultimately show ?thesis using h by blast
qed

text \<open>
  The claim C6 as stated fails for a source of \<open>2^64 / 100\<close> bytes or more: in the export
  of a sparse file of \<open>2^62\<close> bytes the percentage 3 is emitted after \<open>2^57\<close> bytes, and the
  percentage 2 after \<open>2^58\<close> bytes, when \<open>written * 100\<close> has wrapped around.
\<close>

theorem progress_decreases_counterexample:
  "notified (run_events (started_engine IMPORT_COMPRESS_UNCOMPRESSED 0x4000000000000000)
      huge_export_steps) = [0, 3, 2]"
proof -
  let ?A = "8796093022206 :: nat"
  let ?B = "8796093022207 :: nat"
  let ?e0 = "started_engine IMPORT_COMPRESS_UNCOMPRESSED 0x4000000000000000"
  let ?e1 = "?e0\<lparr>tried_reflink := True, written_uncompressed := 16384,
               written_compressed := 16384, last_percent := 0\<rparr>"
  let ?e2 = "?e1\<lparr>written_uncompressed := 144115188075839488,
               written_compressed := 144115188075839488\<rparr>"
  let ?e3 = "?e2\<lparr>written_uncompressed := 144115188075855872,
               written_compressed := 144115188075855872, last_percent := 3\<rparr>"
  let ?e4 = "?e3\<lparr>written_uncompressed := 288230376151695360,
               written_compressed := 288230376151695360\<rparr>"
  let ?e5 = "?e4\<lparr>written_uncompressed := 288230376151711744,
               written_compressed := 288230376151711744, last_percent := 2\<rparr>"
  let ?t3 = "[chunk_loud]"
  let ?t2 = "chunk_loud # replicate ?B chunk_quiet @ ?t3"
  have s1: "raw_export_process ?e0 chunk_loud
      = Inr (0, ?e1, [EvReflink (- 95), EvSendfile 16384 0, EvRatelimit True, EvNotify 0])"
    by (simp add: step_defs engine_defs chunk_loud_def chunk_quiet_def COPY_BUFFER_SIZE_def)
  have s2: "raw_export_process ?e2 chunk_loud
      = Inr (0, ?e3, [EvSendfile 16384 0, EvRatelimit True, EvNotify 3])"
    by (simp add: step_defs engine_defs chunk_loud_def chunk_quiet_def COPY_BUFFER_SIZE_def)
  have s3: "raw_export_process ?e4 chunk_loud
      = Inr (0, ?e5, [EvSendfile 16384 0, EvRatelimit True, EvNotify 2])"
    by (simp add: step_defs engine_defs chunk_loud_def chunk_quiet_def COPY_BUFFER_SIZE_def)
  have q1: "length (run ?e1 (replicate ?A chunk_quiet)) = ?A \<and>
      notified (run_events ?e1 (replicate ?A chunk_quiet)) = [] \<and>
      run_final ?e1 (replicate ?A chunk_quiet) = ?e2"
    using chunk_quiet_run [of ?e1 ?A] by (simp add: engine_defs)
  have q2: "length (run ?e3 (replicate ?B chunk_quiet)) = ?B \<and>
      notified (run_events ?e3 (replicate ?B chunk_quiet)) = [] \<and>
      run_final ?e3 (replicate ?B chunk_quiet) = ?e4"
    using chunk_quiet_run [of ?e3 ?B] by (simp add: engine_defs)
  have n3: "notified (run_events ?e4 ?t3) = [2]"
    using run_events_step [OF s3, of "[]"] by (simp add: run_events_Nil)
  have "notified (run_events ?e3 (replicate ?B chunk_quiet @ ?t3)) = [2]"
    using run_append [of ?e3 "replicate ?B chunk_quiet" ?t3] q2 n3
    by (simp add: notified_append)
  then have n2: "notified (run_events ?e2 ?t2) = [3, 2]"
    using run_events_step [OF s2, of "replicate ?B chunk_quiet @ ?t3"]
    by (simp add: notified_append)
  have "notified (run_events ?e1 (replicate ?A chunk_quiet @ ?t2)) = [3, 2]"
    using run_append [of ?e1 "replicate ?A chunk_quiet" ?t2] q1 n2
    by (simp add: notified_append)
  then have "notified (run_events ?e0 (chunk_loud # replicate ?A chunk_quiet @ ?t2)) = [0, 3, 2]"
    using run_events_step [OF s1, of "replicate ?A chunk_quiet @ ?t2"]
    by (simp add: notified_append)
  then show ?thesis by (simp add: huge_export_steps_def)
qed

subsection \<open>C7: A start that is tried again\<close>

text \<open>
  C7. A \<open>start\<close> that fails after the descriptor of the source was stored (here the
  compressor cannot be set up) returns with \<open>input_fd = 5\<close> and \<open>output_fd\<close> still -1, and
  closes only the snapshot file; the next \<open>start\<close> on the same engine is therefore not
  refused, and stores descriptor 6 in \<open>input_fd\<close>: a second assignment. Descriptor 5 is
  overwritten without having been closed, and destroying the engine closes descriptor 6
  only.
\<close>

theorem start_retry_assigns_input_fd_again:
  "\<exists>e1 e2. raw_export_start (raw_export_new True) ''image.raw'' 4 IMPORT_COMPRESS_GZIP start_compress_fails
            = Inr (- 12, e1, [EvClose 6]) \<and>
          input_fd e1 = 5 \<and> output_fd e1 = - 1 \<and>
          raw_export_start e1 ''image.raw'' 4 IMPORT_COMPRESS_GZIP start_again
            = Inr (0, e2, [EvClose 7]) \<and>
          input_fd e2 = 6 \<and> output_fd e2 = 4 \<and>
          raw_export_unref e2 = [EvClose 6]"
  by (simp add: raw_export_start_def raw_export_new_def start_compress_fails_def start_again_def
      good_start_def reflink_snapshot_def cleanup_close_def raw_export_unref_def S_ISREG_def
      EPERM_def Let_def)

subsection \<open>C8: A source that is not a regular file\<close>




subsection \<open>C9: No division by zero\<close>

text \<open>
  C9. The progress reporter never divides by zero: neither the computation of the
  percentage, nor the reporter, nor the transfer step that calls it can stop with a
  division by zero. The division is reached only when fewer bytes are written than the
  size, so the size is at least 1; for a source of 0 bytes the percentage is 100,
  without a division.
\<close>

theorem report_progress_no_division_by_zero:
  "progress_percent e \<noteq> Inl DivisionByZero \<and>
   raw_export_report_progress e ok \<noteq> Inl DivisionByZero \<and>
   raw_export_process e a \<noteq> Inl DivisionByZero \<and>
   (written_uncompressed e < st_size e \<longrightarrow> 1 \<le> unat (st_size e)) \<and>
   (st_size e = 0 \<longrightarrow> progress_percent e = Inr 100)"
proof -
  have "raw_export_process e a \<noteq> Inl DivisionByZero"
    using process_body_Inl [of e a DivisionByZero] by (auto simp: raw_export_process_Inl)
  moreover have "written_uncompressed e < st_size e \<longrightarrow> 1 \<le> unat (st_size e)"
    by (auto simp: word_less_nat_alt)
  moreover have "st_size e = 0 \<longrightarrow> progress_percent e = Inr 100"
    by (simp add: progress_percent_def)
  ultimately show ?thesis
    by (simp add: progress_percent_no_trap report_progress_no_trap)
qed

theorem report_progress_no_division_by_zero_witness:
  "st_size (raw_export_new True) = 0 \<and> progress_percent (raw_export_new True) = Inr 100 \<and>
   written_uncompressed ((raw_export_new True)\<lparr>st_size := 1\<rparr>) < st_size ((raw_export_new True)\<lparr>st_size := 1\<rparr>) \<and>
   1 \<le> unat (st_size ((raw_export_new True)\<lparr>st_size := 1\<rparr>))"
  using report_progress_no_division_by_zero [of "raw_export_new True"]
    report_progress_no_division_by_zero [of "(raw_export_new True)\<lparr>st_size := 1\<rparr>"]
  by (simp add: raw_export_new_def)

subsection \<open>C10: The return value of the step\<close>

text \<open>
  C10. Every return of the transfer step, and so of the two event handlers, is a return
  of 0. The step fails to return in two cases only: the process is stopped by the
  assertion of line 228, when \<open>write\<close> reports more bytes than it was handed, and (in the
  model) the read loop is still running when its answers are used up, which an answer
  that ends the loop excludes. When \<open>read\<close>, the compressor or \<open>write\<close> fails, the step
  logs the error, hands the negated code to the callback, or to \<open>sd_event_exit\<close> when no
  callback is registered, as its last call, and returns 0.
\<close>

theorem process_returns_zero:
  "(\<forall>rv e' evs. raw_export_process e a = Inr (rv, e', evs) \<longrightarrow> rv = 0) \<and>
   raw_export_on_output e a = raw_export_process e a \<and>
   raw_export_on_defer e a = raw_export_process e a \<and>
   (\<forall>x. (raw_export_process e a = Inl x) =
      (x = OutOfAnswers \<and> starved e a \<or> x = AssertionFailed \<and> write_overrun e a)) \<and>
   (\<not> starved e a \<and> \<not> write_overrun e a \<longrightarrow>
      (\<exists>e' evs. raw_export_process e a = Inr (0, e', evs))) \<and>
   (list_ex loop_ends (reads a) \<longrightarrow> \<not> starved e a) \<and>
   (\<forall>x. reaches_loop e a \<and> buffer e = [] \<and> \<not> eof e \<and> find loop_ends (reads a) = Some x \<and>
        rd_l x < 0 \<longrightarrow>
      (\<exists>e' evs. raw_export_process e a =
         Inr (0, e', evs @ [EvRead (rd_l x) (rd_errno x), EvLogError (rd_errno x)] @
                     finish e (- \<bar>rd_errno x\<bar>)))) \<and>
   (\<forall>x. reaches_loop e a \<and> buffer e = [] \<and> \<not> eof e \<and> find loop_ends (reads a) = Some x \<and>
        0 \<le> rd_l x \<and> enc_r x < 0 \<longrightarrow>
      (\<exists>e' evs. raw_export_process e a =
         Inr (0, e', evs @ [if rd_l x = 0 then EvCompressFinish (enc_r x)
                             else EvCompress (rd_l x) (enc_r x), EvLogError (enc_r x)] @
                     finish e (- \<bar>enc_r x\<bar>)))) \<and>
   (reaches_write e a \<and> write_l a < 0 \<and> write_errno a \<noteq> EAGAIN \<longrightarrow>
      (\<exists>e' evs. raw_export_process e a =
         Inr (0, e', evs @ [EvWrite (write_handed e a) (write_l a) (write_errno a),
                             EvLogError (write_errno a)] @ finish e (- \<bar>write_errno a\<bar>)))) \<and>
   (\<forall>r. r < 0 \<longrightarrow> finish e r = [if on_finished e then EvOnFinished r else EvEventExit r])"
proof -
  have z: "\<forall>rv e' evs. raw_export_process e a = Inr (rv, e', evs) \<longrightarrow> rv = 0"
    by (simp add: raw_export_process_Inr)
  have h: "raw_export_on_output e a = raw_export_process e a"
    "raw_export_on_defer e a = raw_export_process e a"
    by (simp_all add: raw_export_on_output_def raw_export_on_defer_def)
  have s: "\<forall>x. (raw_export_process e a = Inl x) =
      (x = OutOfAnswers \<and> starved e a \<or> x = AssertionFailed \<and> write_overrun e a)"
    using process_stops [of e a] by blast
  have r: "\<not> starved e a \<and> \<not> write_overrun e a \<longrightarrow>
      (\<exists>e' evs. raw_export_process e a = Inr (0, e', evs))"
    using process_verdict [of e a] by blast
  have l: "list_ex loop_ends (reads a) \<longrightarrow> \<not> starved e a"
    by (simp add: starved_def)
  have f: "\<forall>r. r < 0 \<longrightarrow> finish e r = [if on_finished e then EvOnFinished r else EvEventExit r]"
    by (simp add: finish_def)
  note re = read_error_step [of e a]
  note ee = encode_error_step [of e a]
  note we = write_error_step [of e a]
  show ?thesis
    apply (intro conjI)
             apply (rule z)
            apply (rule h(1))
           apply (rule h(2))
          apply (rule s)
         apply (rule r)
        apply (rule l)
    using re apply blast
    using ee apply blast
    using we apply blast
    apply (rule f)
    done
qed

theorem process_returns_zero_witness:
  "raw_export_on_output (started_engine IMPORT_COMPRESS_GZIP 10) read_fails
     = Inr (0, started_engine IMPORT_COMPRESS_GZIP 10,
            [EvRead (- 1) 5, EvLogError 5, EvOnFinished (- 5)]) \<and>
   (\<exists>e' evs. raw_export_process (started_engine IMPORT_COMPRESS_GZIP 10) encode_fails
      = Inr (0, e', evs @ [EvCompress 3 (- 12), EvLogError (- 12), EvOnFinished (- 12)])) \<and>
   (\<exists>e' evs. raw_export_process (started_engine IMPORT_COMPRESS_GZIP 10) write_fails
      = Inr (0, e', evs @ [EvWrite [1, 2, 3] (- 1) 32, EvLogError 32, EvOnFinished (- 32)])) \<and>
   \<not> starved (started_engine IMPORT_COMPRESS_GZIP 10) two_passes \<and>
   \<not> write_overrun (started_engine IMPORT_COMPRESS_GZIP 10) two_passes \<and>
   (\<exists>e' evs. raw_export_on_defer (started_engine IMPORT_COMPRESS_GZIP 10) two_passes
      = Inr (0, e', evs))"
proof -
  let ?e = "started_engine IMPORT_COMPRESS_GZIP 10"
  let ?x = "\<lparr> rd_l = 3, rd_errno = 0, enc_r = - 12, enc_out = [] \<rparr>"
  have f: "finish ?e r = [EvOnFinished r]" if "r < 0" for r
    using that by (simp add: finish_def engine_defs)
  note p = process_returns_zero [of ?e]
  have st: "raw_export_process ?e read_fails
      = Inr (0, ?e, [EvRead (- 1) 5, EvLogError 5, EvOnFinished (- 5)])"
    by (simp add: step_defs engine_defs read_fails_def)
  from p [of read_fails, THEN conjunct2, THEN conjunct1] st
  have a: "raw_export_on_output ?e read_fails
      = Inr (0, ?e, [EvRead (- 1) 5, EvLogError 5, EvOnFinished (- 5)])"
    by simp
  have he: "reaches_loop ?e encode_fails \<and> buffer ?e = [] \<and> \<not> eof ?e \<and>
      find loop_ends (reads encode_fails) = Some ?x \<and> 0 \<le> rd_l ?x \<and> enc_r ?x < 0"
    by (simp add: outcome_defs engine_defs encode_fails_def)
  from p [of encode_fails, THEN conjunct2, THEN conjunct2, THEN conjunct2, THEN conjunct2,
      THEN conjunct2, THEN conjunct2, THEN conjunct2, THEN conjunct1] he
  have "\<exists>e' evs. raw_export_process ?e encode_fails =
      Inr (0, e', evs @ [if rd_l ?x = 0 then EvCompressFinish (enc_r ?x)
                          else EvCompress (rd_l ?x) (enc_r ?x), EvLogError (enc_r ?x)] @
                  finish ?e (- \<bar>enc_r ?x\<bar>))"
    by blast
  then have b: "\<exists>e' evs. raw_export_process ?e encode_fails
      = Inr (0, e', evs @ [EvCompress 3 (- 12), EvLogError (- 12), EvOnFinished (- 12)])"
    by (simp add: f)
  have hw: "reaches_write ?e write_fails \<and> write_l write_fails < 0 \<and>
      write_errno write_fails \<noteq> EAGAIN"
    by (simp add: outcome_defs engine_defs write_fails_def EAGAIN_def)
  have hv: "write_handed ?e write_fails = [1, 2, 3]" "write_l write_fails = - 1"
    "write_errno write_fails = 32"
    by (simp_all add: outcome_defs engine_defs write_fails_def)
  from p [of write_fails, THEN conjunct2, THEN conjunct2, THEN conjunct2, THEN conjunct2,
      THEN conjunct2, THEN conjunct2, THEN conjunct2, THEN conjunct2, THEN conjunct1] hw
  have "\<exists>e' evs. raw_export_process ?e write_fails =
         Inr (0, e', evs @ [EvWrite (write_handed ?e write_fails) (write_l write_fails)
                              (write_errno write_fails),
                             EvLogError (write_errno write_fails)] @
                     finish ?e (- \<bar>write_errno write_fails\<bar>))"
    by blast
  then have c: "\<exists>e' evs. raw_export_process ?e write_fails
      = Inr (0, e', evs @ [EvWrite [1, 2, 3] (- 1) 32, EvLogError 32, EvOnFinished (- 32)])"
    by (simp add: hv f)
  have n: "\<not> starved ?e two_passes" "\<not> write_overrun ?e two_passes"
    by (simp_all add: outcome_defs engine_defs two_passes_def)
  from p [of two_passes, THEN conjunct2, THEN conjunct2, THEN conjunct2, THEN conjunct2,
      THEN conjunct1] n
  have "\<exists>e' evs. raw_export_process ?e two_passes = Inr (0, e', evs)" by blast
  with p [of two_passes, THEN conjunct2, THEN conjunct2, THEN conjunct1]
  have d: "\<exists>e' evs. raw_export_on_defer ?e two_passes = Inr (0, e', evs)" by simp
  from a b c n d show ?thesis by blast
qed

end
